theory Spec2Isabelle
  imports Main "HOL-Library.Word"
begin

unbundle bit_operations_syntax

section \<open>Machine integers, faults and the heap\<close>

text \<open>
  \<^verbatim>\<open>size_t\<close> is the 64-bit unsigned integer of the C++ source: addition, subtraction and
  left shift wrap around. Every operation of the source that the language leaves undefined
  (a shift of an \<^verbatim>\<open>int\<close> past its width, \<^verbatim>\<open>__builtin_clzll(0)\<close>, an access outside an
  array or through a null or freed pointer, a read of a cell never written) and the failed
  \<^verbatim>\<open>assert\<close> is a value of \<open>fault\<close>; a function that can hit one returns
  \<open>fault + result\<close>, with \<open>Inl\<close> the fault. So is the exception thrown by \<^verbatim>\<open>new T[n]\<close>
  (\<open>BadAlloc\<close>).
\<close>

type_synonym size_t = "64 word"

datatype fault =
    UndefinedShift
  | ClzOfZero
  | OutOfBounds
  | NullPointer
  | DanglingPointer
  | Uninitialised
  | AssertionFailed
  | BadAlloc

definition bnd :: "fault + 'a \<Rightarrow> ('a \<Rightarrow> fault + 'b) \<Rightarrow> fault + 'b" where
  "bnd r f = (case r of Inl e \<Rightarrow> Inl e | Inr x \<Rightarrow> f x)"

text \<open>
  A block is one \<^verbatim>\<open>new T[n]\<close> array: its length and its cells, \<open>None\<close> for a cell that
  has not been written yet. The heap is the list of all blocks ever allocated; the address
  of a block is its position in that list, and \<^verbatim>\<open>delete[]\<close> leaves \<open>None\<close> at the address,
  so that an address is never handed out twice.

  \<^verbatim>\<open>new T[n]\<close> throws for \<open>n \<ge> 2 ^ 63\<close>: an array of that many elements is larger than
  \<^verbatim>\<open>PTRDIFF_MAX\<close> bytes, the largest object of a 64-bit platform. A smaller request returns
  a fresh block; running out of memory below that bound is not modelled.
\<close>

record 'a block =
  blk_len :: nat
  cells :: "nat \<Rightarrow> 'a option"

type_synonym 'a heap = "'a block option list"

definition new_array :: "size_t \<Rightarrow> 'a heap \<Rightarrow> fault + (nat \<times> 'a heap)" where
  "new_array n h =
     (if 2 ^ 63 \<le> n then Inl BadAlloc
      else Inr (length h, h @ [Some \<lparr>blk_len = unat n, cells = (\<lambda>_. None)\<rparr>]))"

definition heap_lookup :: "'a heap \<Rightarrow> nat \<Rightarrow> 'a block option" where
  "heap_lookup h a = (if a < length h then h ! a else None)"

definition delete_array :: "nat option \<Rightarrow> 'a heap \<Rightarrow> fault + 'a heap" where
  "delete_array p h =
     (case p of
        None \<Rightarrow> Inr h
      | Some a \<Rightarrow>
          (case heap_lookup h a of
             None \<Rightarrow> Inl DanglingPointer
           | Some b \<Rightarrow> Inr (h[a := None])))"

section \<open>Index-to-location mapping\<close>

text \<open>
  \<^verbatim>\<open>__builtin_clzll(x)\<close>: the number of leading zero bits of a 64-bit value, scanning from
  bit 63 downwards; undefined for \<open>x = 0\<close>.
\<close>

fun clz_from :: "nat \<Rightarrow> size_t \<Rightarrow> nat" where
  "clz_from 0 x = 0"
| "clz_from (Suc k) x = (if bit x k then 0 else Suc (clz_from k x))"

definition builtin_clzll :: "size_t \<Rightarrow> fault + nat" where
  "builtin_clzll x = (if x = 0 then Inl ClzOfZero else Inr (clz_from 64 x))"

text \<open>
  \<^verbatim>\<open>(1 << blockNum) - 1\<close>: the literal \<^verbatim>\<open>1\<close> is an \<^verbatim>\<open>int\<close>, so the shift and the
  subtraction are carried out in 32-bit signed arithmetic, whatever the type of
  \<^verbatim>\<open>blockNum\<close>. For \<open>blockNum < 31\<close> the result \<open>2 ^ blockNum - 1\<close> is a non-negative
  \<^verbatim>\<open>int\<close> and converts to \<^verbatim>\<open>size_t\<close> unchanged. For \<open>blockNum = 31\<close> the subtraction
  overflows \<^verbatim>\<open>int\<close>, and for \<open>blockNum \<ge> 32\<close> the shift count is not less than the width
  of \<^verbatim>\<open>int\<close>: both are undefined behaviour.
\<close>

definition int_mask :: "size_t \<Rightarrow> fault + size_t" where
  "int_mask blockNum =
     (if unat blockNum < 31 then Inr (push_bit (unat blockNum) 1 - 1) else Inl UndefinedShift)"

text \<open>
  The arithmetic of \<^verbatim>\<open>get\<close>, shared by \<^verbatim>\<open>PiggyList::get\<close> and
  \<^verbatim>\<open>RandomInsertPiggyList::get\<close>: the slot of the block table and the offset in the block.
\<close>

definition get_loc :: "size_t \<Rightarrow> size_t \<Rightarrow> size_t \<Rightarrow> fault + (size_t \<times> size_t)" where
  "get_loc bits bsize index =
     (let nindex = index + bsize in
      bnd (builtin_clzll nindex) (\<lambda>lz.
        let blockNum = of_nat (63 - lz) in
        bnd (int_mask blockNum) (\<lambda>m.
          Inr (blockNum - bits, nindex AND m))))"


text \<open>
  \<^verbatim>\<open>x << n\<close> on \<^verbatim>\<open>size_t\<close> (as in \<^verbatim>\<open>1ul << BLOCKBITS\<close>): bits shifted past bit 63 are
  lost; a shift count of 64 or more is undefined.
\<close>

definition shl_size_t :: "size_t \<Rightarrow> size_t \<Rightarrow> fault + size_t" where
  "shl_size_t x n = (if unat n < 64 then Inr (push_bit (unat n) x) else Inl UndefinedShift)"

section \<open>Cells of the block table\<close>

text \<open>
  \<^verbatim>\<open>blockLookupTable\<close> is a \<^verbatim>\<open>std::array\<close> of 64 pointers, all null at construction: a
  function from the slot number to an optional heap address, read and written only after
  the bound \<open>max_conts\<close> has been checked. \<open>cell_ref\<close> is \<^verbatim>\<open>getBlock(blockNum)[blockInd]\<close>
  as a reference: the address of the block and the offset inside it.
\<close>

definition max_conts :: nat where
  "max_conts = 64"

definition cell_ref ::
  "'a heap \<Rightarrow> (nat \<Rightarrow> nat option) \<Rightarrow> size_t \<Rightarrow> size_t \<Rightarrow> fault + (nat \<times> nat)" where
  "cell_ref h tbl blockNum blockInd =
     (if \<not> unat blockNum < max_conts then Inl OutOfBounds
      else case tbl (unat blockNum) of
        None \<Rightarrow> Inl NullPointer
      | Some a \<Rightarrow>
          (case heap_lookup h a of
             None \<Rightarrow> Inl DanglingPointer
           | Some b \<Rightarrow>
               if unat blockInd < blk_len b then Inr (a, unat blockInd) else Inl OutOfBounds))"

definition heap_read :: "'a heap \<Rightarrow> nat \<times> nat \<Rightarrow> fault + 'a" where
  "heap_read h r =
     (case heap_lookup h (fst r) of
        None \<Rightarrow> Inl DanglingPointer
      | Some b \<Rightarrow> (case cells b (snd r) of None \<Rightarrow> Inl Uninitialised | Some v \<Rightarrow> Inr v))"

definition heap_write :: "'a heap \<Rightarrow> nat \<times> nat \<Rightarrow> 'a \<Rightarrow> 'a heap" where
  "heap_write h r v =
     (case heap_lookup h (fst r) of
        None \<Rightarrow> h
      | Some b \<Rightarrow> h[fst r := Some (b\<lparr>cells := (cells b)(snd r := Some v)\<rparr>)])"

text \<open>
  \<^verbatim>\<open>std::memcpy(dst, src, n * sizeof(T))\<close> between two blocks: the first \<open>n\<close> cells of
  the source replace those of the destination, written or not.
\<close>

definition memcpy :: "'a heap \<Rightarrow> nat \<Rightarrow> nat option \<Rightarrow> nat \<Rightarrow> fault + 'a heap" where
  "memcpy h dst src n =
     (case src of
        None \<Rightarrow> Inl NullPointer
      | Some s \<Rightarrow>
          (case (heap_lookup h s, heap_lookup h dst) of
             (Some sb, Some db) \<Rightarrow>
               if n \<le> blk_len sb \<and> n \<le> blk_len db
               then Inr (h[dst := Some (db\<lparr>cells := (\<lambda>j. if j < n then cells sb j else cells db j)\<rparr>)])
               else Inl OutOfBounds
           | _ \<Rightarrow> Inl DanglingPointer))"

section \<open>PiggyList\<close>

record PiggyList =
  BLOCKBITS :: size_t
  BLOCKSIZE :: size_t
  num_containers :: size_t
  allocsize :: size_t
  container_size :: size_t
  m_size :: size_t
  blockLookupTable :: "nat \<Rightarrow> nat option"

text \<open>
  The constructor \<^verbatim>\<open>PiggyList(size_t initialbitsize)\<close>; the default constructor is the
  same with \<^verbatim>\<open>BLOCKBITS = 16\<close>. The members are initialised in the order of their
  declaration: \<^verbatim>\<open>BLOCKSIZE = 1ul << BLOCKBITS\<close>, then \<^verbatim>\<open>allocsize = BLOCKSIZE\<close>.
\<close>

definition PiggyList_new :: "size_t \<Rightarrow> fault + PiggyList" where
  "PiggyList_new initialbitsize =
     bnd (shl_size_t 1 initialbitsize) (\<lambda>bs.
       Inr \<lparr>BLOCKBITS = initialbitsize, BLOCKSIZE = bs, num_containers = 0, allocsize = bs,
            container_size = 0, m_size = 0, blockLookupTable = (\<lambda>_. None)\<rparr>)"

definition PiggyList_default :: "fault + PiggyList" where
  "PiggyList_default = PiggyList_new 16"

definition PiggyList_size :: "PiggyList \<Rightarrow> size_t" where
  "PiggyList_size this = m_size this"

text \<open>
  \<^verbatim>\<open>get(index)\<close> returns a reference: \<open>get_ref\<close> is the cell it refers to, \<open>get\<close> the value
  read through it, and \<^verbatim>\<open>get(index) = v\<close> is \<open>heap_write\<close> at \<open>get_ref\<close>.
\<close>

definition get_ref :: "'a heap \<Rightarrow> PiggyList \<Rightarrow> size_t \<Rightarrow> fault + (nat \<times> nat)" where
  "get_ref h this index =
     bnd (get_loc (BLOCKBITS this) (BLOCKSIZE this) index) (\<lambda>(blockNum, blockInd).
       cell_ref h (blockLookupTable this) blockNum blockInd)"

definition get :: "'a heap \<Rightarrow> PiggyList \<Rightarrow> size_t \<Rightarrow> fault + 'a" where
  "get h this index = bnd (get_ref h this index) (heap_read h)"

text \<open>
  The body of the loop \<^verbatim>\<open>while (container_size < new_index + 1)\<close> of \<^verbatim>\<open>append\<close> and
  \<^verbatim>\<open>createNode\<close>: a new block of \<^verbatim>\<open>allocsize\<close> elements goes into the next slot.
\<close>

definition alloc_block :: "'a heap \<times> PiggyList \<Rightarrow> fault + ('a heap \<times> PiggyList)" where
  "alloc_block st =
     (case st of (h, this) \<Rightarrow>
        bnd (new_array (allocsize this) h) (\<lambda>(a, h').
          Inr (h', this
                \<lparr>blockLookupTable := (blockLookupTable this)(unat (num_containers this) := Some a),
                 num_containers := num_containers this + 1,
                 container_size := container_size this + allocsize this,
                 allocsize := push_bit 1 (allocsize this)\<rparr>)))"

text \<open>
  The loop itself, with \<open>need = new_index + 1\<close>. In a sequential run the spin lock is free
  and the test before the lock is the first test of the loop. Writing the table at slot 64
  is outside the array.
\<close>

function grow :: "size_t \<Rightarrow> 'a heap \<times> PiggyList \<Rightarrow> fault + ('a heap \<times> PiggyList)" where
  "grow need st =
     (if container_size (snd st) < need then
        (if \<not> unat (num_containers (snd st)) < max_conts then Inl OutOfBounds
         else (case alloc_block st of Inl e \<Rightarrow> Inl e | Inr st1 \<Rightarrow> grow need st1))
      else Inr st)"
  by pat_completeness auto
termination
proof (relation "measure (\<lambda>(need, st). max_conts - unat (num_containers (snd st)))", goal_cases)
  case 1
  show ?case by simp
next
  case (2 need st st1)
  obtain h this where st: "st = (h, this)" by (cases st)
  from 2(2) have "unat (num_containers (snd st)) + unat (1::size_t) < 2 ^ 64"
    by (simp add: max_conts_def)
  then have u: "unat (num_containers (snd st) + 1) = unat (num_containers (snd st)) + 1"
    by (simp add: unat_add_lem [THEN iffD1])
  from 2(3) st have "num_containers (snd st1) = num_containers (snd st) + 1"
    by (auto simp: alloc_block_def new_array_def bnd_def split: if_splits)
  with u 2(2) show ?case by (simp add: max_conts_def)
qed

definition append :: "'a \<Rightarrow> 'a heap \<times> PiggyList \<Rightarrow> fault + (size_t \<times> 'a heap \<times> PiggyList)" where
  "append element st =
     (case st of (h, this) \<Rightarrow>
        let new_index = m_size this;
            this1 = this\<lparr>m_size := m_size this + 1\<rparr>
        in bnd (grow (new_index + 1) (h, this1)) (\<lambda>(h2, this2).
             bnd (get_ref h2 this2 new_index) (\<lambda>r.
               Inr (new_index, heap_write h2 r element, this2))))"

definition createNode :: "'a heap \<times> PiggyList \<Rightarrow> fault + (size_t \<times> 'a heap \<times> PiggyList)" where
  "createNode st =
     (case st of (h, this) \<Rightarrow>
        let new_index = m_size this;
            this1 = this\<lparr>m_size := m_size this + 1\<rparr>
        in bnd (grow (new_index + 1) (h, this1)) (\<lambda>(h2, this2).
             Inr (new_index, h2, this2)))"

text \<open>
  \<^verbatim>\<open>freeList\<close> deletes the blocks of the slots below \<^verbatim>\<open>num_containers\<close> and leaves the
  pointers in the table; \<^verbatim>\<open>clear\<close> then resets the four counters.
\<close>

fun free_blocks :: "(nat \<Rightarrow> nat option) \<Rightarrow> nat list \<Rightarrow> 'a heap \<Rightarrow> fault + 'a heap" where
  "free_blocks tbl [] h = Inr h"
| "free_blocks tbl (i # js) h =
     (if \<not> i < max_conts then Inl OutOfBounds
      else bnd (delete_array (tbl i) h) (free_blocks tbl js))"

definition freeList :: "'a heap \<times> PiggyList \<Rightarrow> fault + 'a heap" where
  "freeList st =
     (case st of (h, this) \<Rightarrow>
        free_blocks (blockLookupTable this) [0 ..< unat (num_containers this)] h)"

definition clear :: "'a heap \<times> PiggyList \<Rightarrow> fault + ('a heap \<times> PiggyList)" where
  "clear st =
     (case st of (h, this) \<Rightarrow>
        bnd (freeList (h, this)) (\<lambda>h'.
          Inr (h', this\<lparr>m_size := 0, num_containers := 0, allocsize := BLOCKSIZE this,
                       container_size := 0\<rparr>)))"

text \<open>
  The copy constructor. Only \<^verbatim>\<open>BLOCKBITS\<close> is in the initialiser list, so \<^verbatim>\<open>BLOCKSIZE\<close>
  and \<^verbatim>\<open>allocsize\<close> take their default member initialisers; the body stores the three
  atomic counters and copies the blocks, doubling \<^verbatim>\<open>cSize\<close>, then asserts.
\<close>

fun copy_blocks ::
  "(nat \<Rightarrow> nat option) \<Rightarrow> nat list \<Rightarrow> size_t \<times> 'a heap \<times> (nat \<Rightarrow> nat option) \<Rightarrow>
   fault + (size_t \<times> 'a heap \<times> (nat \<Rightarrow> nat option))" where
  "copy_blocks other_tbl [] acc = Inr acc"
| "copy_blocks other_tbl (i # js) (cSize, h, tbl) =
     (if \<not> i < max_conts then Inl OutOfBounds
      else
        bnd (new_array cSize h) (\<lambda>(a, h1).
          bnd (memcpy h1 a (other_tbl i) (unat cSize)) (\<lambda>h2.
            copy_blocks other_tbl js (push_bit 1 cSize, h2, tbl(i := Some a)))))"

definition PiggyList_copy :: "'a heap \<times> PiggyList \<Rightarrow> fault + ('a heap \<times> PiggyList)" where
  "PiggyList_copy st =
     (case st of (h, other) \<Rightarrow>
        bnd (shl_size_t 1 (BLOCKBITS other)) (\<lambda>bs.
          let this = \<lparr>BLOCKBITS = BLOCKBITS other, BLOCKSIZE = bs,
                      num_containers = num_containers other, allocsize = bs,
                      container_size = container_size other, m_size = m_size other,
                      blockLookupTable = (\<lambda>_. None)\<rparr>
          in bnd (copy_blocks (blockLookupTable other) [0 ..< unat (num_containers other)]
                    (bs, h, blockLookupTable this)) (\<lambda>(cSize, h', tbl).
               if drop_bit 1 cSize = container_size this
               then Inr (h', this\<lparr>blockLookupTable := tbl\<rparr>)
               else Inl AssertionFailed)))"

text \<open>Sequences of calls on one list; a fault ends the run.\<close>

datatype 'a op = Append 'a | CreateNode | Clear

fun step :: "'a op \<Rightarrow> 'a heap \<times> PiggyList \<Rightarrow> fault + ('a heap \<times> PiggyList)" where
  "step (Append v) st = bnd (append v st) (\<lambda>(i, st'). Inr st')"
| "step CreateNode st = bnd (createNode st) (\<lambda>(i, st'). Inr st')"
| "step Clear st = clear st"

fun run :: "'a op list \<Rightarrow> 'a heap \<times> PiggyList \<Rightarrow> fault + ('a heap \<times> PiggyList)" where
  "run [] st = Inr st"
| "run (x # xs) st = bnd (step x st) (run xs)"

section \<open>RandomInsertPiggyList\<close>

text \<open>
  The fields \<^verbatim>\<open>BLOCKBITS\<close> and \<^verbatim>\<open>blockLookupTable\<close> of \<^verbatim>\<open>RandomInsertPiggyList\<close> carry the
  suffix \<open>_R\<close> here, to keep them apart from those of \<^verbatim>\<open>PiggyList\<close>.
\<close>

record RandomInsertPiggyList =
  BLOCKBITS_R :: size_t
  INITIALBLOCKSIZE :: size_t
  numElements :: size_t
  blockLookupTable_R :: "nat \<Rightarrow> nat option"

definition RandomInsertPiggyList_new :: "size_t \<Rightarrow> fault + RandomInsertPiggyList" where
  "RandomInsertPiggyList_new initialbitsize =
     bnd (shl_size_t 1 initialbitsize) (\<lambda>bs.
       Inr \<lparr>BLOCKBITS_R = initialbitsize, INITIALBLOCKSIZE = bs, numElements = 0,
            blockLookupTable_R = (\<lambda>_. None)\<rparr>)"

definition RandomInsertPiggyList_size :: "RandomInsertPiggyList \<Rightarrow> size_t" where
  "RandomInsertPiggyList_size this = numElements this"

definition get_ref_R :: "'a heap \<Rightarrow> RandomInsertPiggyList \<Rightarrow> size_t \<Rightarrow> fault + (nat \<times> nat)" where
  "get_ref_R h this index =
     bnd (get_loc (BLOCKBITS_R this) (INITIALBLOCKSIZE this) index) (\<lambda>(blockNum, blockInd).
       cell_ref h (blockLookupTable_R this) blockNum blockInd)"

definition get_R :: "'a heap \<Rightarrow> RandomInsertPiggyList \<Rightarrow> size_t \<Rightarrow> fault + 'a" where
  "get_R h this index = bnd (get_ref_R h this index) (heap_read h)"

text \<open>
  \<^verbatim>\<open>insertAt\<close>: the block of the index is allocated if its slot is null (the second test
  under the lock repeats the first in a sequential run), the value is stored through
  \<^verbatim>\<open>get\<close>, and \<^verbatim>\<open>numElements\<close> is incremented whatever was in the cell.
\<close>

definition insertAt ::
  "size_t \<Rightarrow> 'a \<Rightarrow> 'a heap \<times> RandomInsertPiggyList \<Rightarrow> fault + ('a heap \<times> RandomInsertPiggyList)" where
  "insertAt index v st =
     (case st of (h, this) \<Rightarrow>
        bnd (builtin_clzll (index + INITIALBLOCKSIZE this)) (\<lambda>lz.
          let blockNum = of_nat (63 - lz) - BLOCKBITS_R this in
          if \<not> unat blockNum < max_conts then Inl OutOfBounds
          else
            bnd (case blockLookupTable_R this (unat blockNum) of
                   None \<Rightarrow>
                     bnd (shl_size_t (INITIALBLOCKSIZE this) blockNum) (\<lambda>n.
                       bnd (new_array n h) (\<lambda>(a, h1).
                         Inr (h1, this\<lparr>blockLookupTable_R :=
                                   (blockLookupTable_R this)(unat blockNum := Some a)\<rparr>)))
                 | Some _ \<Rightarrow> Inr (h, this)) (\<lambda>(h1, this1).
              bnd (get_ref_R h1 this1 index) (\<lambda>r.
                Inr (heap_write h1 r v, this1\<lparr>numElements := numElements this1 + 1\<rparr>)))))"

fun insertAll ::
  "(size_t \<times> 'a) list \<Rightarrow> 'a heap \<times> RandomInsertPiggyList \<Rightarrow>
   fault + ('a heap \<times> RandomInsertPiggyList)" where
  "insertAll [] st = Inr st"
| "insertAll ((index, v) # xs) st = bnd (insertAt index v st) (insertAll xs)"

section \<open>Invariants of a PiggyList\<close>

text \<open>The total capacity of the first \<open>k\<close> blocks of a list with base block size \<open>2 ^ bb\<close>.\<close>

definition cap :: "nat \<Rightarrow> nat \<Rightarrow> nat" where
  "cap bb k = 2 ^ bb * (2 ^ k - 1)"

text \<open>
  \<open>blocks_ok\<close>: the counters agree with the blocks. The slots below \<^verbatim>\<open>num_containers\<close>
  hold distinct live blocks, slot \<open>k\<close> of length \<open>2 ^ (BLOCKBITS + k)\<close>;
  \<^verbatim>\<open>container_size\<close> is their total length and \<^verbatim>\<open>allocsize\<close> the length of the next
  one. No block has \<open>2 ^ 63\<close> elements, so the total stays below \<open>2 ^ 63\<close>.
\<close>

definition blocks_ok :: "'a heap \<times> PiggyList \<Rightarrow> bool" where
  "blocks_ok st =
     (case st of (h, this) \<Rightarrow>
        unat (BLOCKBITS this) + unat (num_containers this) \<le> 63 \<and>
        BLOCKSIZE this = 2 ^ unat (BLOCKBITS this) \<and>
        allocsize this = push_bit (unat (num_containers this)) (BLOCKSIZE this) \<and>
        unat (container_size this) = cap (unat (BLOCKBITS this)) (unat (num_containers this)) \<and>
        (\<forall>k < unat (num_containers this). \<exists>a b.
           blockLookupTable this k = Some a \<and> heap_lookup h a = Some b \<and>
           blk_len b = 2 ^ (unat (BLOCKBITS this) + k)) \<and>
        inj_on (blockLookupTable this) {..< unat (num_containers this)})"

definition PiggyList_inv :: "'a heap \<times> PiggyList \<Rightarrow> bool" where
  "PiggyList_inv st = (blocks_ok st \<and> m_size (snd st) \<le> container_size (snd st))"

text \<open>
  \<open>tight\<close>: no block was allocated before an index needed it, that is, the blocks before
  the last one do not hold \<^verbatim>\<open>m_size\<close> elements.
\<close>

definition tight :: "PiggyList \<Rightarrow> bool" where
  "tight this =
     (num_containers this = 0 \<or>
      cap (unat (BLOCKBITS this)) (unat (num_containers this) - 1) < unat (m_size this))"

text \<open>
  \<open>extends st st'\<close>: \<open>st'\<close> is \<open>st\<close> after some blocks were added. The constants and
  \<^verbatim>\<open>m_size\<close> are the same, the slots in use and the blocks already on the heap are
  untouched, and the heap grew by one block for each new slot.
\<close>

definition extends :: "'a heap \<times> PiggyList \<Rightarrow> 'a heap \<times> PiggyList \<Rightarrow> bool" where
  "extends st st' =
     (BLOCKBITS (snd st') = BLOCKBITS (snd st) \<and>
      BLOCKSIZE (snd st') = BLOCKSIZE (snd st) \<and>
      m_size (snd st') = m_size (snd st) \<and>
      unat (num_containers (snd st)) \<le> unat (num_containers (snd st')) \<and>
      (\<forall>k < unat (num_containers (snd st)).
         blockLookupTable (snd st') k = blockLookupTable (snd st) k) \<and>
      (\<forall>a < length (fst st). heap_lookup (fst st') a = heap_lookup (fst st) a) \<and>
      length (fst st') =
        length (fst st) + (unat (num_containers (snd st')) - unat (num_containers (snd st))))"

text \<open>The length of the block in slot \<open>k\<close>, 0 for an empty slot.\<close>

definition block_len :: "'a heap \<Rightarrow> PiggyList \<Rightarrow> nat \<Rightarrow> nat" where
  "block_len h this k =
     (case blockLookupTable this k of
        None \<Rightarrow> 0
      | Some a \<Rightarrow> (case heap_lookup h a of None \<Rightarrow> 0 | Some b \<Rightarrow> blk_len b))"

declare grow.simps [simp del]

section \<open>The bit scan and the mapping\<close>

lemma nat_bit_ge: "bit (n::nat) k \<Longrightarrow> 2 ^ k \<le> n"
  using bit_nat_def odd_pos by fastforce

lemma nat_bit_top: "n < 2 ^ Suc k \<Longrightarrow> \<not> bit n k \<Longrightarrow> (n::nat) < 2 ^ k"
proof -
  assume a: "n < 2 ^ Suc k" and b: "\<not> bit n k"
  from a have "take_bit (Suc k) n = n" by (simp only: take_bit_nat_eq_self)
  with b have "take_bit k n = n" by (simp add: take_bit_Suc_from_most)
  then show ?thesis by (simp add: take_bit_nat_eq_self_iff)
qed

lemma clz_from_bounds:
  "x \<noteq> 0 \<Longrightarrow> unat x < 2 ^ k \<Longrightarrow>
     clz_from k x < k \<and> 2 ^ (k - 1 - clz_from k x) \<le> unat x \<and> unat x < 2 ^ (k - clz_from k x)"
proof (induction k)
  case 0
  then show ?case by (simp add: unat_eq_0)
next
  case (Suc k)
  show ?case
  proof (cases "bit x k")
    case True
    then have "bit (unat x) k" by (simp add: bit_unsigned_iff)
    then have "2 ^ k \<le> unat x" by (rule nat_bit_ge)
    with True Suc.prems show ?thesis by simp
  next
    case False
    then have "\<not> bit (unat x) k" by (simp add: bit_unsigned_iff)
    with Suc.prems have "unat x < 2 ^ k" by (auto intro: nat_bit_top)
    with Suc.IH Suc.prems(1) have IH: "clz_from k x < k" "2 ^ (k - 1 - clz_from k x) \<le> unat x" "unat x < 2 ^ (k - clz_from k x)"
      by auto
    with False show ?thesis by (auto simp: Suc_diff_le)
  qed
qed

lemma pow2_sandwich_unique:
  fixes n :: nat
  assumes "2 ^ a \<le> n" "n < 2 ^ Suc a" "2 ^ b \<le> n" "n < 2 ^ Suc b"
  shows "a = b"
proof -
  from assms have "(2::nat) ^ a < 2 ^ Suc b" "(2::nat) ^ b < 2 ^ Suc a" by linarith+
  then have "a < Suc b" "b < Suc a" by (simp_all only: power_strict_increasing_iff one_less_numeral_iff semiring_norm)
  then show ?thesis by simp
qed

text \<open>What the bit scan finds: the position of the highest set bit.\<close>
lemma clz_highest_bit:
  assumes "x \<noteq> (0::size_t)"
  shows "clz_from 64 x \<le> 63 \<and> 2 ^ (63 - clz_from 64 x) \<le> unat x \<and> unat x < 2 ^ Suc (63 - clz_from 64 x)"
proof -
  have "unat x < 2 ^ 64" using unsigned_less [of x] by simp
  from clz_from_bounds [OF assms this]
  have c: "clz_from 64 x < 64" and l: "2 ^ (64 - 1 - clz_from 64 x) \<le> unat x"
    and u: "unat x < 2 ^ (64 - clz_from 64 x)" by blast+
  from c have "64 - clz_from 64 x = Suc (63 - clz_from 64 x)" by arith
  with c l u show ?thesis by simp
qed

lemma clz_eq:
  assumes "2 ^ r \<le> unat (x::size_t)" "unat x < 2 ^ Suc r"
  shows "x \<noteq> 0 \<and> 63 - clz_from 64 x = r"
proof -
  have "(0::nat) < 2 ^ r" by simp
  with assms(1) have "0 < unat x" by linarith
  then have nz: "x \<noteq> 0" by (auto simp: unat_gt_0)
  from clz_highest_bit [OF nz] assms show ?thesis
    by (auto intro: pow2_sandwich_unique)
qed

lemma unat_of_nat_64: "n < 2 ^ 64 \<Longrightarrow> unat (of_nat n :: size_t) = n"
  by (simp add: unat_of_nat)

lemma word_eq_unatI: "unat (x::size_t) = n \<Longrightarrow> x = of_nat n"
  by auto

lemma unat_pow2_64: "k < 64 \<Longrightarrow> unat ((2::size_t) ^ k) = 2 ^ k"
proof -
  assume k: "k < 64"
  then have "(2::nat) ^ k < 2 ^ 64" by (simp only: power_strict_increasing_iff one_less_numeral_iff semiring_norm)
  then have "unat (of_nat (2 ^ k) :: size_t) = 2 ^ k" by (rule unat_of_nat_64)
  then show ?thesis by simp
qed

lemma unat_sub_wrap:
  fixes bits :: size_t
  assumes "r < unat bits" "unat bits \<le> 64"
  shows "unat ((of_nat r :: size_t) - bits) = 2 ^ 64 + r - unat bits"
proof -
  have ur: "unat (of_nat r :: size_t) = r" by (rule unat_of_nat_64) (use assms in simp)
  have "unat ((of_nat r :: size_t) - bits) = unat (of_nat r :: size_t) + 2 ^ 64 - unat bits"
    using assms(1) ur by (simp only: unat_sub_if_size word_size) simp
  with ur show ?thesis by simp
qed

lemma get_loc_Inr:
  fixes bits index :: size_t
  assumes n: "n = unat index + 2 ^ unat bits"
    and lo: "2 ^ (unat bits + k) \<le> n" and hi: "n < 2 ^ Suc (unat bits + k)"
    and small: "unat bits + k < 31"
  shows "get_loc bits (2 ^ unat bits) index = Inr (of_nat k, of_nat (n - 2 ^ (unat bits + k)))"
proof -
  let ?bb = "unat bits"
  let ?r = "?bb + k"
  let ?nindex = "index + 2 ^ ?bb"
  have bb: "?bb < 64" using small by simp
  have "(2::nat) ^ Suc ?r \<le> 2 ^ 31" using small by (intro power_increasing) simp_all
  with hi have n31: "n < 2 ^ 31" by linarith
  then have n64: "n < 2 ^ 64" by simp
  have un: "unat ?nindex = n"
    using n n64 bb by (simp add: unat_word_ariths unat_pow2_64)
  from clz_eq [of ?r ?nindex] lo hi un
  have nz: "?nindex \<noteq> 0" and clz: "63 - clz_from 64 ?nindex = ?r" by simp_all
  have ur: "unat (of_nat ?r :: size_t) = ?r" by (rule unat_of_nat_64) (use small in simp)
  have blk: "(of_nat ?r :: size_t) - bits = of_nat k" by simp
  have m: "(push_bit ?r 1 - 1 :: size_t) = mask ?r" by (simp add: mask_eq_exp_minus_1 push_bit_eq_mult)
  have "unat (take_bit ?r ?nindex) = take_bit ?r (unat ?nindex)"
    by (rule unsigned_take_bit_eq)
  then have "unat (?nindex AND mask ?r) = n mod 2 ^ ?r"
    by (simp only: take_bit_eq_mask [symmetric] un take_bit_eq_mod)
  also have "\<dots> = n - 2 ^ ?r"
    using lo hi by (simp add: mod_if)
  finally have off: "?nindex AND mask ?r = of_nat (n - 2 ^ ?r)"
    by (rule word_eq_unatI)
  show ?thesis
    using nz clz ur blk m off small
    by (simp add: get_loc_def builtin_clzll_def int_mask_def bnd_def Let_def)
qed

lemma get_loc_UndefinedShift:
  fixes bits index :: size_t
  assumes bb: "unat bits < 64" and lo: "2 ^ 31 \<le> unat index + 2 ^ unat bits"
    and hi: "unat index + 2 ^ unat bits < 2 ^ 64"
  shows "get_loc bits (2 ^ unat bits) index = Inl UndefinedShift"
proof -
  let ?nindex = "index + 2 ^ unat bits"
  have un: "unat ?nindex = unat index + 2 ^ unat bits"
    using hi bb by (simp add: unat_word_ariths unat_pow2_64)
  with lo have "0 < unat ?nindex" by simp
  then have nz: "?nindex \<noteq> 0" by (simp add: unat_gt_0)
  from clz_highest_bit [OF nz] un lo
  have c: "clz_from 64 ?nindex \<le> 63" and "(2::nat) ^ 31 < 2 ^ Suc (63 - clz_from 64 ?nindex)" by auto
  then have "31 < Suc (63 - clz_from 64 ?nindex)"
    by (simp only: power_strict_increasing_iff one_less_numeral_iff semiring_norm)
  then have r: "31 \<le> 63 - clz_from 64 ?nindex" by simp
  have "unat (of_nat (63 - clz_from 64 ?nindex) :: size_t) = 63 - clz_from 64 ?nindex"
    by (rule unat_of_nat_64) (use c in simp)
  with r nz show ?thesis
    by (simp add: get_loc_def builtin_clzll_def int_mask_def bnd_def Let_def)
qed

lemma pow2_lt_mono: "(2::nat) ^ a < 2 ^ b \<Longrightarrow> a < b"
  by (simp only: power_strict_increasing_iff one_less_numeral_iff semiring_norm)

lemma pow2_le_lt: "(2::nat) ^ a \<le> n \<Longrightarrow> n < 2 ^ b \<Longrightarrow> a < b"
  by (rule pow2_lt_mono) linarith

lemma get_loc_InrD:
  fixes bits j slot off :: size_t
  assumes bb: "unat bits < 64"
    and g: "get_loc bits (2 ^ unat bits) j = Inr (slot, off)"
    and s: "unat slot < 64"
  shows "\<exists>k. unat j + 2 ^ unat bits < 2 ^ 31 \<and> 2 ^ (unat bits + k) \<le> unat j + 2 ^ unat bits \<and>
             unat j + 2 ^ unat bits < 2 ^ Suc (unat bits + k) \<and> unat bits + k < 31 \<and>
             slot = of_nat k \<and> unat slot = k \<and>
             off = of_nat (unat j + 2 ^ unat bits - 2 ^ (unat bits + k)) \<and>
             unat off = unat j + 2 ^ unat bits - 2 ^ (unat bits + k)"
proof -
  let ?bb = "unat bits"
  let ?nindex = "j + 2 ^ ?bb"
  let ?r = "63 - clz_from 64 ?nindex"
  let ?n = "unat j + 2 ^ ?bb"
  from g have nz: "?nindex \<noteq> 0"
    by (auto simp: get_loc_def builtin_clzll_def bnd_def Let_def split: if_splits)
  from clz_highest_bit [OF nz]
  have c: "clz_from 64 ?nindex \<le> 63" and lo: "2 ^ ?r \<le> unat ?nindex" and hi: "unat ?nindex < 2 ^ Suc ?r"
    by blast+
  have ur: "unat (of_nat ?r :: size_t) = ?r" by (rule unat_of_nat_64) simp
  from g nz ur have r31: "?r < 31" and slot: "slot = of_nat ?r - bits"
    by (auto simp: get_loc_def builtin_clzll_def int_mask_def bnd_def Let_def split: if_splits)
  have p64: "unat ((2::size_t) ^ ?bb) = 2 ^ ?bb" using bb by (rule unat_pow2_64)
  have j64: "unat j < 2 ^ 64" using unsigned_less [of j] by simp
  have nowrap: "?n < 2 ^ 64"
  proof (rule ccontr)
    assume "\<not> ?n < 2 ^ 64"
    then have ge: "2 ^ 64 \<le> ?n" by simp
    have "unat ?nindex = ?n mod 2 ^ 64" by (simp add: unat_word_ariths p64)
    also have "\<dots> = ?n - 2 ^ 64"
    proof -
      have "(2::nat) ^ ?bb < 2 ^ 64" using bb by (simp only: power_strict_increasing_iff one_less_numeral_iff semiring_norm)
      with j64 have "?n - 2 ^ 64 < 2 ^ 64" by linarith
      then have "(?n - 2 ^ 64) mod 2 ^ 64 = ?n - 2 ^ 64" by (rule mod_less)
      moreover have "?n mod 2 ^ 64 = (?n - 2 ^ 64) mod 2 ^ 64" using ge by (rule le_mod_geq)
      ultimately show ?thesis by (simp only:)
    qed
    finally have "unat ?nindex < 2 ^ ?bb" using j64 ge by linarith
    with lo have "?r < ?bb" by (rule pow2_le_lt)
    then have "unat (of_nat ?r - bits :: size_t) = 2 ^ 64 + ?r - ?bb"
      by (rule unat_sub_wrap) (use bb in simp)
    with slot have "unat slot = 2 ^ 64 + ?r - ?bb" by (simp only:)
    with s bb show False by simp
  qed
  then have un: "unat ?nindex = ?n" by (simp add: unat_word_ariths p64)
  have "(2::nat) ^ ?bb \<le> ?n" by simp
  with hi un have "?bb < Suc ?r" by (intro pow2_le_lt [of ?bb ?n]) simp_all
  then have bbr: "?bb \<le> ?r" by simp
  define k where "k = ?r - ?bb"
  with bbr have r: "?r = ?bb + k" by simp
  have small: "?bb + k < 31" using r r31 by simp
  have lo': "2 ^ (?bb + k) \<le> ?n" using lo un r by simp
  have hi': "?n < 2 ^ Suc (?bb + k)" using hi un r by simp
  have "(2::nat) ^ Suc (?bb + k) \<le> 2 ^ 31" using small by (intro power_increasing) simp_all
  with hi' have n31: "?n < 2 ^ 31" by linarith
  from get_loc_Inr [OF refl lo' hi' small] g
  have sl: "slot = of_nat k" and off: "off = of_nat (?n - 2 ^ (?bb + k))" by simp_all
  have uk: "unat slot = k" unfolding sl by (rule unat_of_nat_64) (use small in simp)
  have uo: "unat off = ?n - 2 ^ (?bb + k)" unfolding off by (rule unat_of_nat_64) (use n31 in simp)
  from n31 lo' hi' small sl uk off uo show ?thesis by blast
qed

section \<open>Growth keeps the blocks in order\<close>

lemma case_Inr_iff:
  "(case r of Inl e \<Rightarrow> False | Inr x \<Rightarrow> P x) \<longleftrightarrow> (\<exists>x. r = Inr x \<and> P x)"
  by (cases r) simp_all

lemma bnd_Inr_iff: "bnd r f = Inr y \<longleftrightarrow> (\<exists>x. r = Inr x \<and> f x = Inr y)"
  by (cases r) (simp_all add: bnd_def)

lemma cap_0: "cap bb 0 = 0"
  by (simp add: cap_def)

lemma cap_Suc: "cap bb (Suc k) = cap bb k + 2 ^ (bb + k)"
  by (simp add: cap_def power_add algebra_simps)

lemma cap_plus_base: "cap bb k + 2 ^ bb = 2 ^ (bb + k)"
  by (simp add: cap_def power_add algebra_simps)

lemma cap_mono: "k \<le> k' \<Longrightarrow> cap bb k \<le> cap bb k'"
  by (simp add: cap_def diff_le_mono)

lemma cap_lt_64: "bb + k \<le> 64 \<Longrightarrow> cap bb k < 2 ^ 64"
proof -
  assume "bb + k \<le> 64"
  then have "(2::nat) ^ (bb + k) \<le> 2 ^ 64" by (intro power_increasing) simp_all
  moreover have "(0::nat) < 2 ^ bb" by simp
  then have "cap bb k < 2 ^ (bb + k)" using cap_plus_base [of bb k] by linarith
  ultimately show ?thesis by linarith
qed

lemma unat_Suc_64: "unat (x::size_t) < 64 \<Longrightarrow> unat (x + 1) = Suc (unat x)"
proof -
  assume "unat x < 64"
  then have "unat x + unat (1::size_t) < 2 ^ 64" by simp
  then show ?thesis by (simp add: unat_add_lem [THEN iffD1])
qed

lemma heap_lookup_append:
  "heap_lookup (h @ [x]) a = (if a = length h then x else heap_lookup h a)"
  by (auto simp: heap_lookup_def nth_append)

lemma heap_lookup_Some_lt: "heap_lookup h a = Some b \<Longrightarrow> a < length h"
  by (auto simp: heap_lookup_def split: if_splits)

lemma le_pow63_iff: "((2::size_t) ^ 63 \<le> n) = (2 ^ 63 \<le> unat n)"
proof -
  have "unat ((2::size_t) ^ 63) = 2 ^ 63" by (rule unat_pow2_64) simp
  then show ?thesis by (simp only: word_le_nat_alt)
qed

lemma new_array_Inr_iff:
  "new_array n h = Inr r \<longleftrightarrow>
     unat n < 2 ^ 63 \<and> r = (length h, h @ [Some \<lparr>blk_len = unat n, cells = (\<lambda>_. None)\<rparr>])"
proof -
  have "new_array n h =
      (if 2 ^ 63 \<le> unat n then Inl BadAlloc
       else Inr (length h, h @ [Some \<lparr>blk_len = unat n, cells = (\<lambda>_. None)\<rparr>]))"
    unfolding new_array_def le_pow63_iff ..
  then show ?thesis by auto
qed

lemma alloc_block_fields:
  "alloc_block (h, this) = Inr (h', this') \<Longrightarrow>
     unat (allocsize this) < 2 ^ 63 \<and>
     h' = h @ [Some \<lparr>blk_len = unat (allocsize this), cells = (\<lambda>_. None)\<rparr>] \<and>
     blockLookupTable this' = (blockLookupTable this)(unat (num_containers this) := Some (length h)) \<and>
     num_containers this' = num_containers this + 1 \<and>
     container_size this' = container_size this + allocsize this \<and>
     allocsize this' = push_bit 1 (allocsize this) \<and>
     m_size this' = m_size this \<and> BLOCKBITS this' = BLOCKBITS this \<and>
     BLOCKSIZE this' = BLOCKSIZE this"
  by (auto simp: alloc_block_def bnd_Inr_iff new_array_Inr_iff)

lemma alloc_block_Inr:
  assumes "unat (allocsize this) < 2 ^ 63"
  shows "\<exists>st'. alloc_block (h, this) = Inr st'"
proof -
  from assms obtain r where "new_array (allocsize this) h = Inr r"
    by (simp add: new_array_Inr_iff)
  then show ?thesis by (cases r) (simp add: alloc_block_def bnd_def)
qed

lemma blocks_ok_allocsize:
  assumes "blocks_ok (h, this)"
  shows "unat (allocsize this) = 2 ^ (unat (BLOCKBITS this) + unat (num_containers this))"
proof -
  from assms have "allocsize this = 2 ^ (unat (BLOCKBITS this) + unat (num_containers this))"
    and "unat (BLOCKBITS this) + unat (num_containers this) < 64"
    by (simp_all add: blocks_ok_def push_bit_eq_mult power_add mult.commute)
  then show ?thesis by (simp only: unat_pow2_64)
qed

lemma alloc_block_ok:
  assumes ok: "blocks_ok (h, this)"
    and ab: "alloc_block (h, this) = Inr (h', this')"
  shows "blocks_ok (h', this')"
proof -
  let ?bb = "unat (BLOCKBITS this)"
  let ?nc = "unat (num_containers this)"
  note f = alloc_block_fields [OF ab]
  from ok have le: "?bb + ?nc \<le> 63" and bs: "BLOCKSIZE this = 2 ^ ?bb"
    and al: "allocsize this = push_bit ?nc (BLOCKSIZE this)"
    and cs: "unat (container_size this) = cap ?bb ?nc"
    and tbl: "\<forall>k < ?nc. \<exists>a b. blockLookupTable this k = Some a \<and> heap_lookup h a = Some b \<and>
           blk_len b = 2 ^ (?bb + k)"
    and inj: "inj_on (blockLookupTable this) {..< ?nc}"
    by (simp_all add: blocks_ok_def)
  note ual = blocks_ok_allocsize [OF ok]
  from f ual have "(2::nat) ^ (?bb + ?nc) < 2 ^ 63" by simp
  then have room: "?bb + ?nc < 63" by (rule pow2_lt_mono)
  then have nc64: "?nc < 64" by simp
  then have nc': "unat (num_containers this') = Suc ?nc" using f by (simp add: unat_Suc_64)
  have "cap ?bb (Suc ?nc) < 2 ^ 64" using room by (intro cap_lt_64) simp
  then have "unat (container_size this) + unat (allocsize this) < 2 ^ 64"
    by (simp add: cs ual cap_Suc)
  then have ucs: "unat (container_size this') = cap ?bb (Suc ?nc)"
    using f by (simp add: unat_add_lem [THEN iffD1] cs ual cap_Suc)
  have al': "allocsize this' = push_bit (Suc ?nc) (BLOCKSIZE this')"
    using f by (simp add: al push_bit_eq_mult)
  have tbl': "\<exists>a b. blockLookupTable this' k = Some a \<and> heap_lookup h' a = Some b \<and>
           blk_len b = 2 ^ (?bb + k)" if "k < Suc ?nc" for k
  proof (cases "k = ?nc")
    case True
    then show ?thesis using f ual by (simp add: heap_lookup_append)
  next
    case False
    with that have "k < ?nc" by simp
    with tbl obtain a b where "blockLookupTable this k = Some a" "heap_lookup h a = Some b"
      "blk_len b = 2 ^ (?bb + k)" by blast
    moreover from this have "a \<noteq> length h" by (auto dest: heap_lookup_Some_lt)
    ultimately show ?thesis using f False by (simp add: heap_lookup_append)
  qed
  have inj': "inj_on (blockLookupTable this') {..< Suc ?nc}"
  proof (rule inj_onI)
    fix x y assume x: "x \<in> {..< Suc ?nc}" and y: "y \<in> {..< Suc ?nc}"
      and e: "blockLookupTable this' x = blockLookupTable this' y"
    have old: "blockLookupTable this' k \<noteq> Some (length h)" if "k < ?nc" for k
    proof -
      from tbl that obtain a b where "blockLookupTable this k = Some a" "heap_lookup h a = Some b"
        by blast
      moreover from this have "a \<noteq> length h" by (auto dest: heap_lookup_Some_lt)
      ultimately show ?thesis using f that by simp
    qed
    show "x = y"
    proof (cases "x = ?nc \<or> y = ?nc")
      case True
      then show ?thesis using x y e old [of x] old [of y] f by (cases "x = ?nc"; cases "y = ?nc") auto
    next
      case False
      with x y have "x \<in> {..< ?nc}" "y \<in> {..< ?nc}" by auto
      moreover from False e f have "blockLookupTable this x = blockLookupTable this y" by simp
      ultimately show ?thesis using inj by (auto dest: inj_onD)
    qed
  qed
  show ?thesis
    using room bs f nc' al' ucs tbl' inj'
    by (simp add: blocks_ok_def)
qed

lemma extends_refl: "extends st st"
  by (simp add: extends_def)

lemma extends_trans: "extends s1 s2 \<Longrightarrow> extends s2 s3 \<Longrightarrow> extends s1 s3"
  by (auto simp: extends_def)

lemma alloc_block_extends:
  assumes "unat (num_containers (snd st)) < 64" and "alloc_block st = Inr st'"
  shows "extends st st'"
proof -
  obtain h this where st: "st = (h, this)" by (cases st)
  obtain h' this' where st': "st' = (h', this')" by (cases st')
  from assms(2) st st' have ab: "alloc_block (h, this) = Inr (h', this')" by simp
  note f = alloc_block_fields [OF ab]
  from assms st have "unat (num_containers this') = Suc (unat (num_containers this))"
    using f by (simp add: unat_Suc_64)
  then show ?thesis using f st st'
    by (auto simp: extends_def heap_lookup_append)
qed

lemma grow_ok:
  "blocks_ok st \<Longrightarrow> grow need st = Inr st' \<Longrightarrow>
     blocks_ok st' \<and> extends st st' \<and> need \<le> container_size (snd st') \<and>
     (st' = st \<or>
      cap (unat (BLOCKBITS (snd st))) (unat (num_containers (snd st')) - 1) < unat need)"
proof (induction need st rule: grow.induct)
  case (1 need st)
  obtain h this where st: "st = (h, this)" by (cases st)
  show ?case
  proof (cases "container_size (snd st) < need")
    case False
    with 1(3) have "st' = st" by (subst (asm) grow.simps) simp
    with False 1(2) show ?thesis by (simp add: extends_refl)
  next
    case True
    from True 1(3) have lt: "unat (num_containers (snd st)) < max_conts"
      by (subst (asm) grow.simps) (simp split: if_splits)
    with True 1(3) obtain s1 where ab: "alloc_block st = Inr s1" and g: "grow need s1 = Inr st'"
      by (subst (asm) grow.simps) (auto split: sum.splits)
    obtain h1 this1 where s1: "s1 = (h1, this1)" by (cases s1)
    from ab st s1 have ab': "alloc_block (h, this) = Inr (h1, this1)" by simp
    from alloc_block_ok [OF _ ab'] 1(2) st s1 have ok1: "blocks_ok s1" by simp
    from lt ab have ext1: "extends st s1"
      by (intro alloc_block_extends) (simp_all add: max_conts_def)
    from lt have nn: "\<not> \<not> unat (num_containers (snd st)) < max_conts" by simp
    from 1(1) [OF True nn ab ok1 g]
    have IH: "blocks_ok st'" "extends s1 st'" "need \<le> container_size (snd st')"
      "st' = s1 \<or>
         cap (unat (BLOCKBITS (snd s1))) (unat (num_containers (snd st')) - 1) < unat need"
      by simp_all
    from ext1 have bbeq: "BLOCKBITS (snd s1) = BLOCKBITS (snd st)"
      by (simp add: extends_def)
    from lt st have "unat (num_containers this) < 64" by (simp add: max_conts_def)
    then have nc1: "unat (num_containers this1) = Suc (unat (num_containers this))"
      using alloc_block_fields [OF ab'] by (simp add: unat_Suc_64)
    from 1(2) st have "unat (container_size this) = cap (unat (BLOCKBITS this)) (unat (num_containers this))"
      by (simp add: blocks_ok_def)
    with True st have capnc: "cap (unat (BLOCKBITS this)) (unat (num_containers this)) < unat need"
      by (simp add: word_less_nat_alt)
    have "cap (unat (BLOCKBITS (snd st))) (unat (num_containers (snd st')) - 1) < unat need"
      using IH(4)
    proof
      assume "st' = s1"
      with st s1 nc1 capnc show ?thesis by simp
    next
      assume "cap (unat (BLOCKBITS (snd s1))) (unat (num_containers (snd st')) - 1) < unat need"
      with bbeq show ?thesis by simp
    qed
    with IH(1,3) extends_trans [OF ext1 IH(2)] show ?thesis by simp
  qed
qed

section \<open>The operations keep the invariant\<close>

lemma heap_write_lookup:
  "heap_lookup (heap_write h r v) a =
     (case heap_lookup h a of
        None \<Rightarrow> None
      | Some b \<Rightarrow> Some (if a = fst r then b\<lparr>cells := (cells b)(snd r := Some v)\<rparr> else b))"
  by (auto simp: heap_write_def heap_lookup_def nth_list_update split: option.splits)

lemma length_heap_write: "length (heap_write h r v) = length h"
  by (simp add: heap_write_def split: option.splits)

lemma heap_write_blocks_ok:
  assumes "blocks_ok (h, this)"
  shows "blocks_ok (heap_write h r v, this)"
proof -
  have "\<exists>a b. blockLookupTable this k = Some a \<and> heap_lookup (heap_write h r v) a = Some b \<and>
           blk_len b = 2 ^ (unat (BLOCKBITS this) + k)"
    if "\<exists>a b. blockLookupTable this k = Some a \<and> heap_lookup h a = Some b \<and>
           blk_len b = 2 ^ (unat (BLOCKBITS this) + k)" for k
    using that by (auto simp: heap_write_lookup)
  with assms show ?thesis by (simp add: blocks_ok_def)
qed

lemma blocks_ok_m_size:
  "blocks_ok (h, this\<lparr>m_size := m\<rparr>) = blocks_ok (h, this)"
  by (simp add: blocks_ok_def)

lemma createNode_ok:
  assumes ok: "blocks_ok st" and c: "createNode st = Inr (i, st')"
  shows "PiggyList_inv st'" and "i = m_size (snd st)" and "m_size (snd st') = i + 1"
    and "extends (fst st, (snd st)\<lparr>m_size := i + 1\<rparr>) st'"
    and "st' = (fst st, (snd st)\<lparr>m_size := i + 1\<rparr>) \<or>
         cap (unat (BLOCKBITS (snd st))) (unat (num_containers (snd st')) - 1) < unat (i + 1)"
proof -
  obtain h this where st: "st = (h, this)" by (cases st)
  let ?s1 = "(h, this\<lparr>m_size := m_size this + 1\<rparr>)"
  from c st have g: "grow (m_size this + 1) ?s1 = Inr st'" and i: "i = m_size this"
    by (auto simp: createNode_def Let_def bnd_Inr_iff)
  from ok st have "blocks_ok ?s1" by (simp add: blocks_ok_m_size)
  note G = grow_ok [OF this g]
  from G st i show "PiggyList_inv st'" by (simp add: PiggyList_inv_def extends_def)
  from i st show "i = m_size (snd st)" by simp
  from G st i show "m_size (snd st') = i + 1" by (simp add: extends_def)
  from G st i show "extends (fst st, (snd st)\<lparr>m_size := i + 1\<rparr>) st'" by simp
  from G st i show "st' = (fst st, (snd st)\<lparr>m_size := i + 1\<rparr>) \<or>
         cap (unat (BLOCKBITS (snd st))) (unat (num_containers (snd st')) - 1) < unat (i + 1)"
    by simp
qed

lemma append_ok:
  assumes ok: "blocks_ok st" and c: "append v st = Inr (i, st')"
  obtains h2 r where
    "grow (i + 1) (fst st, (snd st)\<lparr>m_size := i + 1\<rparr>) = Inr (h2, snd st')"
    "get_ref h2 (snd st') i = Inr r" "fst st' = heap_write h2 r v"
    "PiggyList_inv st'" "i = m_size (snd st)" "m_size (snd st') = i + 1"
    "extends (fst st, (snd st)\<lparr>m_size := i + 1\<rparr>) (h2, snd st')"
    "(h2, snd st') = (fst st, (snd st)\<lparr>m_size := i + 1\<rparr>) \<or>
       cap (unat (BLOCKBITS (snd st))) (unat (num_containers (snd st')) - 1) < unat (i + 1)"
proof -
  obtain h this where st: "st = (h, this)" by (cases st)
  let ?s1 = "(h, this\<lparr>m_size := m_size this + 1\<rparr>)"
  from c st obtain h2 this2 r where g: "grow (m_size this + 1) ?s1 = Inr (h2, this2)"
    and r: "get_ref h2 this2 (m_size this) = Inr r"
    and st': "st' = (heap_write h2 r v, this2)" and i: "i = m_size this"
    by (auto simp: append_def Let_def bnd_Inr_iff)
  from ok st have "blocks_ok ?s1" by (simp add: blocks_ok_m_size)
  note G = grow_ok [OF this g]
  from G have okw: "blocks_ok (heap_write h2 r v, this2)" by (simp add: heap_write_blocks_ok)
  show ?thesis
  proof (rule that [of h2 r])
    from g st st' i show "grow (i + 1) (fst st, (snd st)\<lparr>m_size := i + 1\<rparr>) = Inr (h2, snd st')"
      by simp
    from r st' i show "get_ref h2 (snd st') i = Inr r" by simp
    from st' show "fst st' = heap_write h2 r v" by simp
    from G okw st' show "PiggyList_inv st'" by (simp add: PiggyList_inv_def extends_def)
    from i st show "i = m_size (snd st)" by simp
    from G st' i show "m_size (snd st') = i + 1" by (simp add: extends_def)
    from G st st' i show "extends (fst st, (snd st)\<lparr>m_size := i + 1\<rparr>) (h2, snd st')" by simp
    from G st st' i show "(h2, snd st') = (fst st, (snd st)\<lparr>m_size := i + 1\<rparr>) \<or>
       cap (unat (BLOCKBITS (snd st))) (unat (num_containers (snd st')) - 1) < unat (i + 1)"
      by simp
  qed
qed

lemma clear_ok:
  assumes ok: "blocks_ok st" and c: "clear st = Inr st'"
  shows "PiggyList_inv st' \<and> BLOCKBITS (snd st') = BLOCKBITS (snd st) \<and>
         BLOCKSIZE (snd st') = BLOCKSIZE (snd st) \<and>
         m_size (snd st') = 0 \<and> num_containers (snd st') = 0 \<and> container_size (snd st') = 0 \<and>
         allocsize (snd st') = BLOCKSIZE (snd st)"
proof -
  obtain h this where st: "st = (h, this)" by (cases st)
  from c st obtain h' where "st' = (h', this\<lparr>m_size := 0, num_containers := 0,
      allocsize := BLOCKSIZE this, container_size := 0\<rparr>)"
    by (auto simp: clear_def bnd_Inr_iff)
  with ok st show ?thesis
    by (simp add: PiggyList_inv_def blocks_ok_def cap_0)
qed

lemma step_inv:
  assumes "PiggyList_inv st" "step x st = Inr st'"
  shows "PiggyList_inv st' \<and> BLOCKBITS (snd st') = BLOCKBITS (snd st)"
proof (cases x)
  case (Append v)
  with assms(2) obtain i where a: "append v st = Inr (i, st')" by (auto simp: bnd_Inr_iff)
  from assms(1) have "blocks_ok st" by (simp add: PiggyList_inv_def)
  from append_ok [OF this a] show ?thesis
    by (auto simp: extends_def)
next
  case CreateNode
  with assms(2) obtain i where c: "createNode st = Inr (i, st')" by (auto simp: bnd_Inr_iff)
  from assms(1) have "blocks_ok st" by (simp add: PiggyList_inv_def)
  from createNode_ok(1,4) [OF this c] show ?thesis
    by (simp add: extends_def)
next
  case Clear
  with assms(2) have "clear st = Inr st'" by simp
  from clear_ok [OF _ this] assms(1) show ?thesis by (simp add: PiggyList_inv_def)
qed

lemma run_inv:
  "PiggyList_inv st \<Longrightarrow> run ops st = Inr st' \<Longrightarrow>
     PiggyList_inv st' \<and> BLOCKBITS (snd st') = BLOCKBITS (snd st)"
proof (induction ops arbitrary: st)
  case Nil
  then show ?case by simp
next
  case (Cons x xs)
  from Cons.prems(2) obtain s1 where s: "step x st = Inr s1" and r: "run xs s1 = Inr st'"
    by (auto simp: bnd_Inr_iff)
  from step_inv [OF Cons.prems(1) s] Cons.IH [OF _ r] show ?case by simp
qed

lemma PiggyList_new_inv:
  assumes "PiggyList_new bits = Inr this"
  shows "PiggyList_inv (h, this) \<and> BLOCKBITS this = bits \<and> unat bits < 64 \<and>
         num_containers this = 0 \<and> m_size this = 0"
  using assms
  by (auto simp: PiggyList_new_def shl_size_t_def bnd_Inr_iff PiggyList_inv_def blocks_ok_def
      cap_0 push_bit_eq_mult split: if_splits)

lemma sum_block_len:
  assumes "blocks_ok (h, this)"
  shows "n \<le> unat (num_containers this) \<Longrightarrow>
         (\<Sum>k<n. block_len h this k) = cap (unat (BLOCKBITS this)) n"
proof (induction n)
  case 0
  show ?case by (simp add: cap_0)
next
  case (Suc n)
  from Suc.prems assms obtain a b where "blockLookupTable this n = Some a"
    "heap_lookup h a = Some b" "blk_len b = 2 ^ (unat (BLOCKBITS this) + n)"
    by (auto simp: blocks_ok_def Suc_le_eq)
  then have "block_len h this n = 2 ^ (unat (BLOCKBITS this) + n)" by (simp add: block_len_def)
  with Suc show ?case by (simp add: cap_Suc)
qed

text \<open>
  Claim C9 (capacity invariant). After every completed sequence of \<^verbatim>\<open>append\<close>,
  \<^verbatim>\<open>createNode\<close> and \<^verbatim>\<open>clear\<close> calls on a freshly constructed list, the capacity counter
  \<^verbatim>\<open>container_size\<close> is at least the logical size \<^verbatim>\<open>m_size\<close>, and it equals
  \<open>B * (2 ^ num_containers - 1)\<close> for the base block size \<open>B = 2 ^ BLOCKBITS\<close>, which is the
  sum of the lengths of the blocks in the \<^verbatim>\<open>num_containers\<close> slots in use.
\<close>

theorem capacity_invariant:
  assumes "PiggyList_new bits = Inr this0" and "run ops (h0, this0) = Inr (h, this)"
  shows "m_size this \<le> container_size this \<and>
         unat (container_size this) = 2 ^ unat bits * (2 ^ unat (num_containers this) - 1) \<and>
         (\<Sum>k<unat (num_containers this). block_len h this k) = unat (container_size this)"
proof -
  from PiggyList_new_inv [OF assms(1), of h0]
  have "PiggyList_inv (h0, this0)" and b: "BLOCKBITS this0 = bits" by simp_all
  from run_inv [OF this(1) assms(2)] b
  have inv: "PiggyList_inv (h, this)" and bb: "BLOCKBITS this = bits" by simp_all
  then have ok: "blocks_ok (h, this)" and le: "m_size this \<le> container_size this"
    by (simp_all add: PiggyList_inv_def)
  from ok bb have cs: "unat (container_size this) = cap (unat bits) (unat (num_containers this))"
    by (simp add: blocks_ok_def)
  from sum_block_len [OF ok order_refl] bb cs le show ?thesis by (simp add: cap_def)
qed

theorem capacity_invariant_witness:
  "case PiggyList_new 1 of Inl e \<Rightarrow> False
   | Inr this0 \<Rightarrow>
       (case run [Append (7::nat), CreateNode, Append 9, Clear, Append 4, Append 5, Append 6]
               ([], this0) of
          Inl e \<Rightarrow> False
        | Inr (h, this) \<Rightarrow>
            m_size this \<le> container_size this \<and>
            unat (container_size this) =
              2 ^ unat (1::size_t) * (2 ^ unat (num_containers this) - 1) \<and>
            (\<Sum>k<unat (num_containers this). block_len h this k) = unat (container_size this))"
proof -
  have "case PiggyList_new 1 of Inl e \<Rightarrow> False
   | Inr this0 \<Rightarrow>
       (case run [Append (7::nat), CreateNode, Append 9, Clear, Append 4, Append 5, Append 6]
               ([], this0) of
          Inl e \<Rightarrow> False
        | Inr st \<Rightarrow> True)"
    by code_simp
  then obtain this0 h this where a: "PiggyList_new 1 = Inr this0"
    and b: "run [Append (7::nat), CreateNode, Append 9, Clear, Append 4, Append 5, Append 6]
              ([], this0) = Inr (h, this)"
    by (auto simp: case_Inr_iff simp del: run.simps)
  from capacity_invariant [OF a b] show ?thesis by (simp add: a b del: run.simps)
qed

section \<open>Stability of stored elements\<close>

lemma get_ref_D:
  assumes ok: "blocks_ok (h, this)" and g: "get_ref h this i = Inr (a, off)"
    and lt: "unat i < unat (container_size this)"
  shows "\<exists>k b. k < unat (num_containers this) \<and>
           2 ^ (unat (BLOCKBITS this) + k) \<le> unat i + 2 ^ unat (BLOCKBITS this) \<and>
           unat i + 2 ^ unat (BLOCKBITS this) < 2 ^ Suc (unat (BLOCKBITS this) + k) \<and>
           blockLookupTable this k = Some a \<and>
           off = unat i + 2 ^ unat (BLOCKBITS this) - 2 ^ (unat (BLOCKBITS this) + k) \<and>
           heap_lookup h a = Some b \<and> off < blk_len b"
proof -
  let ?bb = "unat (BLOCKBITS this)"
  from ok have bb: "?bb < 64" and bs: "BLOCKSIZE this = 2 ^ ?bb"
    and cs: "unat (container_size this) = cap ?bb (unat (num_containers this))"
    by (simp_all add: blocks_ok_def)
  from g bs obtain slot bi where gl: "get_loc (BLOCKBITS this) (2 ^ ?bb) i = Inr (slot, bi)"
    and cr: "cell_ref h (blockLookupTable this) slot bi = Inr (a, off)"
    by (auto simp: get_ref_def bnd_Inr_iff)
  from cr have s64: "unat slot < 64"
    by (auto simp: cell_ref_def max_conts_def split: if_splits)
  from get_loc_InrD [OF bb gl s64] obtain k where
    k: "2 ^ (?bb + k) \<le> unat i + 2 ^ ?bb" "unat i + 2 ^ ?bb < 2 ^ Suc (?bb + k)"
      "unat slot = k" "unat bi = unat i + 2 ^ ?bb - 2 ^ (?bb + k)" by blast
  from lt cs have "unat i + 2 ^ ?bb < cap ?bb (unat (num_containers this)) + 2 ^ ?bb" by simp
  then have "unat i + 2 ^ ?bb < 2 ^ (?bb + unat (num_containers this))"
    by (simp only: cap_plus_base)
  with k(1) have "?bb + k < ?bb + unat (num_containers this)" by (rule pow2_le_lt)
  then have knc: "k < unat (num_containers this)" by simp
  from cr k(3,4) s64 obtain b where "blockLookupTable this k = Some a"
    "heap_lookup h a = Some b" "off = unat i + 2 ^ ?bb - 2 ^ (?bb + k)" "off < blk_len b"
    by (auto simp: cell_ref_def max_conts_def split: if_splits option.splits)
  with k knc show ?thesis by blast
qed

lemma get_ref_inj:
  assumes ok: "blocks_ok (h, this)"
    and gi: "get_ref h this i = Inr r" and gj: "get_ref h this j = Inr r"
    and li: "unat i < unat (container_size this)" and lj: "unat j < unat (container_size this)"
  shows "i = j"
proof -
  let ?bb = "unat (BLOCKBITS this)"
  obtain a off where r: "r = (a, off)" by (cases r)
  from get_ref_D [OF ok gi [unfolded r] li] obtain k where
    k: "k < unat (num_containers this)" "2 ^ (?bb + k) \<le> unat i + 2 ^ ?bb"
      "blockLookupTable this k = Some a" "off = unat i + 2 ^ ?bb - 2 ^ (?bb + k)" by blast
  from get_ref_D [OF ok gj [unfolded r] lj] obtain k' where
    k': "k' < unat (num_containers this)" "2 ^ (?bb + k') \<le> unat j + 2 ^ ?bb"
      "blockLookupTable this k' = Some a" "off = unat j + 2 ^ ?bb - 2 ^ (?bb + k')" by blast
  from ok have inj: "inj_on (blockLookupTable this) {..< unat (num_containers this)}"
    by (simp add: blocks_ok_def)
  from inj_onD [OF inj, of k k'] k(1,3) k'(1,3) have "k = k'" by simp
  with k(2,4) k'(2,4) have "unat i = unat j" by simp
  then show ?thesis by (simp only: word_unat_eq_iff)
qed

lemma get_ref_extends:
  assumes ok: "blocks_ok st" and ext: "extends st st'"
    and g: "get_ref (fst st) (snd st) i = Inr r"
    and lt: "unat i < unat (container_size (snd st))"
  shows "get_ref (fst st') (snd st') i = Inr r \<and>
         heap_lookup (fst st') (fst r) = heap_lookup (fst st) (fst r)"
proof -
  obtain h this where st: "st = (h, this)" by (cases st)
  obtain h' this' where st': "st' = (h', this')" by (cases st')
  obtain a off where r: "r = (a, off)" by (cases r)
  let ?bb = "unat (BLOCKBITS this)"
  from ok st have bb: "?bb < 64" and bs: "BLOCKSIZE this = 2 ^ ?bb"
    by (simp_all add: blocks_ok_def)
  from g st r bs obtain slot bi where gl: "get_loc (BLOCKBITS this) (2 ^ ?bb) i = Inr (slot, bi)"
    and cr: "cell_ref h (blockLookupTable this) slot bi = Inr (a, off)"
    by (auto simp: get_ref_def bnd_Inr_iff)
  from cr have s64: "unat slot < 64"
    by (auto simp: cell_ref_def max_conts_def split: if_splits)
  from get_loc_InrD [OF bb gl s64] obtain k where
    k: "2 ^ (?bb + k) \<le> unat i + 2 ^ ?bb" "unat slot = k"
    and khi: "unat i + 2 ^ ?bb < 2 ^ Suc (?bb + k)" by blast
  from get_ref_D [OF ok [unfolded st] g [unfolded st r fst_conv snd_conv]] lt st
  obtain k2 b where k2: "k2 < unat (num_containers this)"
      "2 ^ (?bb + k2) \<le> unat i + 2 ^ ?bb" "unat i + 2 ^ ?bb < 2 ^ Suc (?bb + k2)"
      "blockLookupTable this k2 = Some a" "heap_lookup h a = Some b" by auto
  have "k = k2"
  proof -
    from k(1) khi k2(2,3) have "?bb + k = ?bb + k2" by (rule pow2_sandwich_unique)
    then show ?thesis by simp
  qed
  with k2 k have knc: "unat slot < unat (num_containers this)" by simp
  from k2(5) have alt: "a < length h" by (rule heap_lookup_Some_lt)
  from ext st st' knc alt have t: "blockLookupTable this' (unat slot) = blockLookupTable this (unat slot)"
    and hl: "heap_lookup h' a = heap_lookup h a"
    and c: "BLOCKBITS this' = BLOCKBITS this" "BLOCKSIZE this' = BLOCKSIZE this"
    by (simp_all add: extends_def)
  from cr \<open>k = k2\<close> k(2) k2(4) have "blockLookupTable this (unat slot) = Some a" by simp
  with cr t hl have "cell_ref h' (blockLookupTable this') slot bi = Inr (a, off)"
    by (simp add: cell_ref_def split: if_splits)
  with gl c bs hl st st' r show ?thesis by (simp add: get_ref_def bnd_def)
qed

lemma get_ref_heap_write:
  "get_ref (heap_write h r v) this i = get_ref h this i"
proof -
  have "cell_ref (heap_write h r v) tbl slot bi = cell_ref h tbl slot bi" for tbl slot bi
    by (auto simp: cell_ref_def heap_write_lookup split: option.splits)
  then show ?thesis by (simp add: get_ref_def)
qed

lemma heap_read_write_same:
  "heap_lookup h (fst r) = Some b \<Longrightarrow> heap_read (heap_write h r v) r = Inr v"
  by (simp add: heap_read_def heap_write_lookup)

lemma heap_read_write_other:
  "r' \<noteq> r \<Longrightarrow> heap_read (heap_write h r v) r' = heap_read h r'"
  by (cases r; cases r') (auto simp: heap_read_def heap_write_lookup split: option.splits)

lemma get_ref_live:
  "get_ref h this i = Inr r \<Longrightarrow> \<exists>b. heap_lookup h (fst r) = Some b"
  by (auto simp: get_ref_def cell_ref_def bnd_Inr_iff split: if_splits option.splits)

lemma get_ref_m_size: "get_ref h (this\<lparr>m_size := m\<rparr>) i = get_ref h this i"
  by (simp add: get_ref_def)

lemma get_ref_small:
  assumes ok: "blocks_ok (h, this)" and g: "get_ref h this j = Inr r"
  shows "unat j + 2 ^ unat (BLOCKBITS this) < 2 ^ 31"
proof -
  let ?bb = "unat (BLOCKBITS this)"
  from ok have bb: "?bb < 64" and bs: "BLOCKSIZE this = 2 ^ ?bb"
    by (simp_all add: blocks_ok_def)
  from g bs obtain slot bi where gl: "get_loc (BLOCKBITS this) (2 ^ ?bb) j = Inr (slot, bi)"
    and cr: "cell_ref h (blockLookupTable this) slot bi = Inr r"
    by (auto simp: get_ref_def bnd_Inr_iff)
  from cr have s64: "unat slot < 64"
    by (auto simp: cell_ref_def max_conts_def split: if_splits)
  from get_loc_InrD [OF bb gl s64] show ?thesis by blast
qed

lemma unat_Suc_nowrap: "unat (x::size_t) + 1 < 2 ^ 64 \<Longrightarrow> unat (x + 1) = Suc (unat x)"
proof -
  assume "unat x + 1 < 2 ^ 64"
  then have "unat x + unat (1::size_t) < 2 ^ 64" by simp
  then show ?thesis by (simp add: unat_add_lem [THEN iffD1])
qed

lemma unat_Suc_small: "unat (j::size_t) < 2 ^ 31 \<Longrightarrow> unat (j + 1) = Suc (unat j)"
proof -
  assume "unat j < 2 ^ 31"
  then have "unat j + unat (1::size_t) < 2 ^ 64" by simp
  then show ?thesis by (simp add: unat_add_lem [THEN iffD1])
qed

lemma heap_read_cong:
  "heap_lookup h' (fst r) = heap_lookup h (fst r) \<Longrightarrow> heap_read h' r = heap_read h r"
  by (simp add: heap_read_def)

lemma blocks_ok_cs_mono:
  assumes "blocks_ok st" "blocks_ok st'" "extends st st'"
  shows "unat (container_size (snd st)) \<le> unat (container_size (snd st'))"
proof -
  obtain h this where st: "st = (h, this)" by (cases st)
  obtain h' this' where st': "st' = (h', this')" by (cases st')
  from assms st st' show ?thesis
    by (simp add: blocks_ok_def extends_def cap_mono)
qed

lemma step_stable:
  assumes inv: "PiggyList_inv st"
    and g: "get_ref (fst st) (snd st) i = Inr r"
    and rd: "heap_read (fst st) r = Inr v"
    and lt: "unat i < unat (container_size (snd st))"
    and s: "step x st = Inr st'" and nc: "x \<noteq> Clear" and ne: "m_size (snd st) \<noteq> i"
  shows "get_ref (fst st') (snd st') i = Inr r \<and> heap_read (fst st') r = Inr v \<and>
         unat i < unat (container_size (snd st')) \<and> m_size (snd st') = m_size (snd st) + 1"
proof -
  from inv have ok: "blocks_ok st" by (simp add: PiggyList_inv_def)
  have ok1: "blocks_ok (fst st, (snd st)\<lparr>m_size := m\<rparr>)" for m
    using ok by (simp add: blocks_ok_m_size)
  have g1: "get_ref h' ((snd st)\<lparr>m_size := m\<rparr>) i = get_ref h' (snd st) i" for m h'
    by (rule get_ref_m_size)
  show ?thesis
  proof (cases x)
    case Clear
    with nc show ?thesis by simp
  next
    case CreateNode
    with s obtain j where c: "createNode st = Inr (j, st')" by (auto simp: bnd_Inr_iff)
    note C = createNode_ok [OF ok c]
    note inv' = C(1) and j = C(2) and m' = C(3) and ext = C(4)
    from inv' have ok': "blocks_ok st'" by (simp add: PiggyList_inv_def)
    have "get_ref (fst st') (snd st') i = Inr r \<and>
          heap_lookup (fst st') (fst r) = heap_lookup (fst st) (fst r)"
      using get_ref_extends [OF ok1 ext, of i r] g lt by (simp add: g1)
    then have a: "get_ref (fst st') (snd st') i = Inr r"
      and b: "heap_lookup (fst st') (fst r) = heap_lookup (fst st) (fst r)" by blast+
    from heap_read_cong [OF b] rd have "heap_read (fst st') r = Inr v" by simp
    moreover from blocks_ok_cs_mono [OF ok1 ok' ext] lt
    have "unat i < unat (container_size (snd st'))" by simp
    ultimately show ?thesis using a m' j by simp
  next
    case (Append w)
    with s obtain j where c: "append w st = Inr (j, st')" by (auto simp: bnd_Inr_iff)
    from append_ok [OF ok c] obtain h2 rj where
      gr: "grow (j + 1) (fst st, (snd st)\<lparr>m_size := j + 1\<rparr>) = Inr (h2, snd st')"
      and gj: "get_ref h2 (snd st') j = Inr rj" and h': "fst st' = heap_write h2 rj w"
      and inv': "PiggyList_inv st'" and j: "j = m_size (snd st)"
      and m': "m_size (snd st') = j + 1"
      and ext: "extends (fst st, (snd st)\<lparr>m_size := j + 1\<rparr>) (h2, snd st')" .
    from grow_ok [OF ok1 gr] have ok2: "blocks_ok (h2, snd st')" by blast
    have "get_ref (fst (h2, snd st')) (snd (h2, snd st')) i = Inr r \<and>
          heap_lookup (fst (h2, snd st')) (fst r) = heap_lookup (fst st) (fst r)"
      using get_ref_extends [OF ok1 ext, of i r] g lt by (simp add: g1)
    then have gi2: "get_ref h2 (snd st') i = Inr r"
      and hl: "heap_lookup h2 (fst r) = heap_lookup (fst st) (fst r)" by simp_all
    from heap_read_cong [OF hl] rd have rd2: "heap_read h2 r = Inr v" by simp
    from blocks_ok_cs_mono [OF ok1 ok2 ext] lt
    have lt2: "unat i < unat (container_size (snd st'))" by simp
    from get_ref_small [OF ok2 gj] have "unat j < 2 ^ 31" by simp
    then have "unat (j + 1) = Suc (unat j)" by (rule unat_Suc_small)
    moreover from inv' m' have "unat (j + 1) \<le> unat (container_size (snd st'))"
      by (simp add: PiggyList_inv_def word_le_nat_alt)
    ultimately have ltj: "unat j < unat (container_size (snd st'))" by simp
    have "rj \<noteq> r"
    proof
      assume "rj = r"
      with gj have "get_ref h2 (snd st') j = Inr r" by simp
      from get_ref_inj [OF ok2 gi2 this lt2 ltj] have "i = j" .
      with ne j show False by simp
    qed
    then have "heap_read (heap_write h2 rj w) r = Inr v"
      using rd2 by (simp add: heap_read_write_other)
    with gi2 lt2 m' j h' show ?thesis by (simp add: get_ref_heap_write)
  qed
qed

lemma inv_m_size_bound:
  assumes "PiggyList_inv st"
  shows "unat (m_size (snd st)) < 2 ^ 63"
proof -
  obtain h this where st: "st = (h, this)" by (cases st)
  let ?bb = "unat (BLOCKBITS this)"
  let ?nc = "unat (num_containers this)"
  from assms st have le: "?bb + ?nc \<le> 63" and cs: "unat (container_size this) = cap ?bb ?nc"
    and m: "unat (m_size this) \<le> unat (container_size this)"
    by (simp_all add: PiggyList_inv_def blocks_ok_def word_le_nat_alt)
  have "(0::nat) < 2 ^ ?bb" by simp
  then have "cap ?bb ?nc < 2 ^ (?bb + ?nc)" using cap_plus_base [of ?bb ?nc] by linarith
  moreover have "(2::nat) ^ (?bb + ?nc) \<le> 2 ^ 63" using le by (intro power_increasing) simp_all
  ultimately show ?thesis using m cs st by simp
qed

lemma run_stable:
  "PiggyList_inv st \<Longrightarrow> get_ref (fst st) (snd st) i = Inr r \<Longrightarrow> heap_read (fst st) r = Inr v \<Longrightarrow>
   unat i < unat (container_size (snd st)) \<Longrightarrow> run ops st = Inr st' \<Longrightarrow> Clear \<notin> set ops \<Longrightarrow>
   unat i < unat (m_size (snd st)) \<Longrightarrow>
   get_ref (fst st') (snd st') i = Inr r \<and> heap_read (fst st') r = Inr v"
proof (induction ops arbitrary: st)
  case Nil
  then show ?case by simp
next
  case (Cons x xs)
  from Cons.prems(5) obtain s1 where s: "step x st = Inr s1" and r: "run xs s1 = Inr st'"
    by (auto simp: bnd_Inr_iff)
  from Cons.prems(7) have ne: "m_size (snd st) \<noteq> i" by auto
  from Cons.prems(6) have nc: "x \<noteq> Clear" by auto
  from step_stable [OF Cons.prems(1-4) s nc ne]
  have a: "get_ref (fst s1) (snd s1) i = Inr r" "heap_read (fst s1) r = Inr v"
    "unat i < unat (container_size (snd s1))" "m_size (snd s1) = m_size (snd st) + 1" by simp_all
  from step_inv [OF Cons.prems(1) s] have inv1: "PiggyList_inv s1" by simp
  from inv_m_size_bound [OF Cons.prems(1)] have "unat (m_size (snd st)) + 1 < 2 ^ 64" by simp
  then have "unat (m_size (snd st) + 1) = Suc (unat (m_size (snd st)))" by (rule unat_Suc_nowrap)
  with a(4) Cons.prems(7) have "unat i < unat (m_size (snd s1))" by simp
  from Cons.IH [OF inv1 a(1-3) r _ this] Cons.prems(6) show ?case by simp
qed

text \<open>
  Stability where the behaviour of \<^verbatim>\<open>get\<close> is defined. On a list reached by any completed
  sequence of calls, if \<^verbatim>\<open>append(v)\<close> returned the index \<open>i\<close>, then after any later completed
  sequence of \<^verbatim>\<open>append\<close> and \<^verbatim>\<open>createNode\<close> calls \<^verbatim>\<open>get(i)\<close> returns \<open>v\<close>, and the cell that
  \<^verbatim>\<open>get(i)\<close> refers to (the address of the block and the offset in it) is the one it
  referred to when \<^verbatim>\<open>append\<close> returned. An \<^verbatim>\<open>append\<close> completes only while
  \<open>i + B < 2 ^ 31\<close> (lemma \<open>append_returns_small\<close> below), so this covers that range of
  indices only.
\<close>

lemma append_stable_in_range:
  assumes "PiggyList_new bits = Inr this0" and "run ops0 (h0, this0) = Inr st0"
    and "append v st0 = Inr (i, st1)"
    and "run ops st1 = Inr st2" and "Clear \<notin> set ops"
  shows "get (fst st2) (snd st2) i = Inr v \<and>
         get_ref (fst st2) (snd st2) i = get_ref (fst st1) (snd st1) i"
proof -
  from PiggyList_new_inv [OF assms(1), of h0] have "PiggyList_inv (h0, this0)" by simp
  from run_inv [OF this assms(2)] have inv0: "PiggyList_inv st0" by simp
  then have ok0: "blocks_ok st0" by (simp add: PiggyList_inv_def)
  from append_ok [OF ok0 assms(3)] obtain h2 r where
    gr: "grow (i + 1) (fst st0, (snd st0)\<lparr>m_size := i + 1\<rparr>) = Inr (h2, snd st1)"
    and g: "get_ref h2 (snd st1) i = Inr r" and h1: "fst st1 = heap_write h2 r v"
    and inv1: "PiggyList_inv st1" and m1: "m_size (snd st1) = i + 1" by metis
  from inv1 have ok1: "blocks_ok st1" by (simp add: PiggyList_inv_def)
  from g h1 have g1: "get_ref (fst st1) (snd st1) i = Inr r" by (simp add: get_ref_heap_write)
  from get_ref_live [OF g] h1 have rd1: "heap_read (fst st1) r = Inr v"
    by (auto simp: heap_read_write_same)
  have "blocks_ok (fst st1, snd st1)" using ok1 by simp
  from get_ref_small [OF this g1] have "unat i < 2 ^ 31" by simp
  then have "unat (i + 1) = Suc (unat i)" by (rule unat_Suc_small)
  moreover from inv1 m1 have "unat (i + 1) \<le> unat (container_size (snd st1))"
    by (simp add: PiggyList_inv_def word_le_nat_alt)
  ultimately have lt1: "unat i < unat (container_size (snd st1))" by simp
  from m1 \<open>unat (i + 1) = Suc (unat i)\<close> have "unat i < unat (m_size (snd st1))" by simp
  from run_stable [OF inv1 g1 rd1 lt1 assms(4,5) this]
  have "get_ref (fst st2) (snd st2) i = Inr r" "heap_read (fst st2) r = Inr v" by simp_all
  with g1 show ?thesis by (simp add: get_def bnd_def)
qed

lemma append_stable_in_range_example:
  "case PiggyList_new 1 of Inl e \<Rightarrow> False
   | Inr this0 \<Rightarrow>
       (case run [Append (5::nat)] ([], this0) of Inl e \<Rightarrow> False
        | Inr st0 \<Rightarrow>
            (case append 7 st0 of Inl e \<Rightarrow> False
             | Inr (i, st1) \<Rightarrow>
                 (case run [CreateNode, Append 9, Append 2, Append 3] st1 of Inl e \<Rightarrow> False
                  | Inr st2 \<Rightarrow>
                      Clear \<notin> set [CreateNode, Append 9, Append 2, Append (3::nat)] \<and>
                      i = 1 \<and> get (fst st2) (snd st2) i = Inr 7 \<and>
                      get_ref (fst st2) (snd st2) i = get_ref (fst st1) (snd st1) i)))"
proof -
  have "case PiggyList_new 1 of Inl e \<Rightarrow> False
   | Inr this0 \<Rightarrow>
       (case run [Append (5::nat)] ([], this0) of Inl e \<Rightarrow> False
        | Inr st0 \<Rightarrow>
            (case append 7 st0 of Inl e \<Rightarrow> False
             | Inr (i, st1) \<Rightarrow>
                 (case run [CreateNode, Append 9, Append 2, Append 3] st1 of Inl e \<Rightarrow> False
                  | Inr st2 \<Rightarrow> i = 1)))"
    by code_simp
  then obtain this0 st0 i st1 st2 where a: "PiggyList_new 1 = Inr this0"
    and b: "run [Append (5::nat)] ([], this0) = Inr st0"
    and c: "append 7 st0 = Inr (i, st1)"
    and d: "run [CreateNode, Append 9, Append 2, Append 3] st1 = Inr st2"
    and i: "i = 1"
    by (auto simp: case_Inr_iff simp del: run.simps)
  have e: "Clear \<notin> set [CreateNode, Append 9, Append 2, Append (3::nat)]" by simp
  from append_stable_in_range [OF a b c d e] show ?thesis by (simp add: a b c d i del: run.simps)
qed

section \<open>Growth allocates no block before it is needed\<close>

lemma step_tight:
  assumes inv: "PiggyList_inv st" and t: "tight (snd st)"
    and s: "step x st = Inr st'" and nc: "x \<noteq> Clear"
  shows "tight (snd st') \<and> unat (m_size (snd st')) = Suc (unat (m_size (snd st))) \<and>
         length (fst st') + unat (num_containers (snd st)) =
           length (fst st) + unat (num_containers (snd st'))"
proof -
  from inv have ok: "blocks_ok st" by (simp add: PiggyList_inv_def)
  let ?m = "m_size (snd st)"
  let ?s1 = "(fst st, (snd st)\<lparr>m_size := ?m + 1\<rparr>)"
  from inv_m_size_bound [OF inv] have "unat ?m + 1 < 2 ^ 64" by simp
  then have um: "unat (?m + 1) = Suc (unat ?m)" by (rule unat_Suc_nowrap)
  have main: "tight (snd s2) \<and> unat (m_size (snd s2)) = Suc (unat ?m) \<and>
         length (fst s2) + unat (num_containers (snd st)) =
           length (fst st) + unat (num_containers (snd s2))"
    if ext: "extends ?s1 s2"
      and d: "s2 = ?s1 \<or> cap (unat (BLOCKBITS (snd st))) (unat (num_containers (snd s2)) - 1) < unat (?m + 1)"
    for s2
  proof -
    from ext have e: "BLOCKBITS (snd s2) = BLOCKBITS (snd st)" "m_size (snd s2) = ?m + 1"
      "unat (num_containers (snd st)) \<le> unat (num_containers (snd s2))"
      "length (fst s2) = length (fst st) + (unat (num_containers (snd s2)) - unat (num_containers (snd st)))"
      by (simp_all add: extends_def)
    from d have "tight (snd s2)"
    proof
      assume "s2 = ?s1"
      with t um show ?thesis by (auto simp: tight_def)
    next
      assume "cap (unat (BLOCKBITS (snd st))) (unat (num_containers (snd s2)) - 1) < unat (?m + 1)"
      with e show ?thesis by (simp add: tight_def)
    qed
    with e um show ?thesis by simp
  qed
  show ?thesis
  proof (cases x)
    case Clear
    with nc show ?thesis by simp
  next
    case CreateNode
    with s obtain j where c: "createNode st = Inr (j, st')" by (auto simp: bnd_Inr_iff)
    note C = createNode_ok [OF ok c]
    from main [of st'] C(2,4,5) show ?thesis by simp
  next
    case (Append w)
    with s obtain j where c: "append w st = Inr (j, st')" by (auto simp: bnd_Inr_iff)
    from append_ok [OF ok c] obtain h2 rj where
      h': "fst st' = heap_write h2 rj w" and j: "j = m_size (snd st)"
      and ext: "extends (fst st, (snd st)\<lparr>m_size := j + 1\<rparr>) (h2, snd st')"
      and d: "(h2, snd st') = (fst st, (snd st)\<lparr>m_size := j + 1\<rparr>) \<or>
         cap (unat (BLOCKBITS (snd st))) (unat (num_containers (snd st')) - 1) < unat (j + 1)" .
    from main [of "(h2, snd st')"] ext d j h' show ?thesis by (simp add: length_heap_write)
  qed
qed

lemma run_tight:
  "PiggyList_inv st \<Longrightarrow> tight (snd st) \<Longrightarrow> run ops st = Inr st' \<Longrightarrow> Clear \<notin> set ops \<Longrightarrow>
   tight (snd st') \<and> unat (m_size (snd st')) = unat (m_size (snd st)) + length ops \<and>
   length (fst st') + unat (num_containers (snd st)) =
     length (fst st) + unat (num_containers (snd st'))"
proof (induction ops arbitrary: st)
  case Nil
  then show ?case by simp
next
  case (Cons x xs)
  from Cons.prems(3) obtain s1 where s: "step x st = Inr s1" and r: "run xs s1 = Inr st'"
    by (auto simp: bnd_Inr_iff)
  from Cons.prems(4) have nc: "x \<noteq> Clear" and ncs: "Clear \<notin> set xs" by auto
  from step_tight [OF Cons.prems(1,2) s nc]
  have a: "tight (snd s1)" "unat (m_size (snd s1)) = Suc (unat (m_size (snd st)))"
    "length (fst s1) + unat (num_containers (snd st)) =
       length (fst st) + unat (num_containers (snd s1))" by simp_all
  from step_inv [OF Cons.prems(1) s] have inv1: "PiggyList_inv s1" by simp
  from Cons.IH [OF inv1 a(1) r ncs] a(2,3) show ?case by simp
qed

lemma cap_1: "cap bb (Suc 0) = 2 ^ bb"
  by (simp add: cap_def)

lemma cap_2: "cap bb 2 = 3 * 2 ^ bb"
  by (simp add: cap_def)

lemma two_blocks:
  assumes lo: "cap bb (n - 1) < 2 ^ bb + 1" and hi: "2 ^ bb + 1 \<le> cap bb n"
  shows "n = 2"
proof -
  have "\<not> n \<le> 1"
  proof
    assume "n \<le> 1"
    then have "cap bb n \<le> cap bb (Suc 0)" by (intro cap_mono) simp
    with hi show False by (simp add: cap_1)
  qed
  moreover have "\<not> 3 \<le> n"
  proof
    assume "3 \<le> n"
    then have "cap bb 2 \<le> cap bb (n - 1)" by (intro cap_mono) simp
    then have c: "3 * 2 ^ bb \<le> cap bb (n - 1)" by (simp only: cap_2)
    have p: "(1::nat) \<le> 2 ^ bb" by simp
    from c p lo show False by linarith
  qed
  ultimately show ?thesis by simp
qed

text \<open>
  Claim C4 (growth correctness). Starting from a freshly constructed list with base block
  size \<open>B = 2 ^ BLOCKBITS\<close>, after \<open>B + 1\<close> completed \<^verbatim>\<open>append\<close> calls exactly two blocks
  are allocated: \<^verbatim>\<open>num_containers\<close> is 2, the heap grew by two blocks, slot 0 holds a block
  of \<open>B\<close> elements and slot 1 another block of \<open>2 * B\<close> elements, and \<^verbatim>\<open>size()\<close> is
  \<open>B + 1\<close>. (Lemma \<open>growth_completes\<close> below: the \<open>B + 1\<close> calls do complete when
  \<open>BLOCKBITS \<le> 29\<close>.)
\<close>

theorem growth_two_blocks:
  assumes new: "PiggyList_new bits = Inr this0"
    and len: "length vs = 2 ^ unat bits + 1"
    and run: "run (map Append vs) (h0, this0) = Inr (h, this)"
  shows "num_containers this = 2 \<and> unat (PiggyList_size this) = 2 ^ unat bits + 1 \<and>
         length h = length h0 + 2 \<and>
         (\<exists>a0 a1 b0 b1.
            blockLookupTable this 0 = Some a0 \<and> blockLookupTable this 1 = Some a1 \<and> a0 \<noteq> a1 \<and>
            heap_lookup h a0 = Some b0 \<and> blk_len b0 = 2 ^ unat bits \<and>
            heap_lookup h a1 = Some b1 \<and> blk_len b1 = 2 * 2 ^ unat bits)"
proof -
  let ?bb = "unat bits"
  from PiggyList_new_inv [OF new, of h0]
  have inv0: "PiggyList_inv (h0, this0)" and b0: "BLOCKBITS this0 = bits" and bb: "?bb < 64"
    and n0: "num_containers this0 = 0" and m0: "m_size this0 = 0" by simp_all
  from n0 have t0: "tight (snd (h0, this0))" by (simp add: tight_def)
  have ncl: "Clear \<notin> set (map Append vs)" by auto
  from run_tight [OF inv0 t0 run ncl] m0 n0 len
  have t: "tight this" and m: "unat (m_size this) = 2 ^ ?bb + 1"
    and l: "length h = length h0 + unat (num_containers this)" by simp_all
  from run_inv [OF inv0 run] b0
  have inv: "PiggyList_inv (h, this)" and bbeq: "BLOCKBITS this = bits" by simp_all
  then have ok: "blocks_ok (h, this)" and le: "m_size this \<le> container_size this"
    by (simp_all add: PiggyList_inv_def)
  from ok bbeq have cs: "unat (container_size this) = cap ?bb (unat (num_containers this))"
    by (simp add: blocks_ok_def)
  from le m cs have hi: "2 ^ ?bb + 1 \<le> cap ?bb (unat (num_containers this))"
    by (simp add: word_le_nat_alt)
  have "num_containers this \<noteq> 0"
  proof
    assume "num_containers this = 0"
    with hi show False by (simp add: cap_0)
  qed
  with t m bbeq have lo: "cap ?bb (unat (num_containers this) - 1) < 2 ^ ?bb + 1"
    by (simp add: tight_def)
  from two_blocks [OF lo hi] have nc2: "unat (num_containers this) = 2" .
  then have "unat (num_containers this) = unat (2::size_t)" by simp
  then have nc: "num_containers this = 2" by (simp only: word_unat_eq_iff)
  from ok bbeq have tbl: "\<forall>k < unat (num_containers this). \<exists>a b.
      blockLookupTable this k = Some a \<and> heap_lookup h a = Some b \<and> blk_len b = 2 ^ (?bb + k)"
    by (simp add: blocks_ok_def)
  from nc2 have "0 < unat (num_containers this)" by simp
  with tbl obtain a0 c0 where s0: "blockLookupTable this 0 = Some a0"
    "heap_lookup h a0 = Some c0" "blk_len c0 = 2 ^ (?bb + 0)" by blast
  from nc2 have "1 < unat (num_containers this)" by simp
  with tbl obtain a1 c1 where s1: "blockLookupTable this 1 = Some a1"
    "heap_lookup h a1 = Some c1" "blk_len c1 = 2 ^ (?bb + 1)" by blast
  from ok nc2 have inj: "inj_on (blockLookupTable this) {..< 2}" by (simp add: blocks_ok_def)
  have "a0 \<noteq> a1"
  proof
    assume "a0 = a1"
    with s0(1) s1(1) have "blockLookupTable this 0 = blockLookupTable this 1" by simp
    from inj_onD [OF inj this] show False by simp
  qed
  with s0 s1 nc m l nc2 show ?thesis by (simp add: PiggyList_size_def)
qed

theorem growth_two_blocks_witness:
  "case PiggyList_new 2 of Inl e \<Rightarrow> False
   | Inr this0 \<Rightarrow>
       (case run (map Append [10, 11, 12, 13, 14 :: nat]) ([], this0) of
          Inl e \<Rightarrow> False
        | Inr (h, this) \<Rightarrow>
            length [10, 11, 12, 13, 14 :: nat] = 2 ^ unat (2::size_t) + 1 \<and>
            num_containers this = 2 \<and> unat (PiggyList_size this) = 5 \<and> length h = 2 \<and>
            (\<exists>a0 a1 b0 b1.
               blockLookupTable this 0 = Some a0 \<and> blockLookupTable this 1 = Some a1 \<and>
               a0 \<noteq> a1 \<and> heap_lookup h a0 = Some b0 \<and> blk_len b0 = 4 \<and>
               heap_lookup h a1 = Some b1 \<and> blk_len b1 = 8))"
proof -
  have "case PiggyList_new 2 of Inl e \<Rightarrow> False
   | Inr this0 \<Rightarrow>
       (case run (map Append [10, 11, 12, 13, 14 :: nat]) ([], this0) of
          Inl e \<Rightarrow> False
        | Inr st \<Rightarrow> True)"
    by code_simp
  then obtain this0 h this where a: "PiggyList_new 2 = Inr this0"
    and b: "run (map Append [10, 11, 12, 13, 14 :: nat]) ([], this0) = Inr (h, this)"
    by (auto simp: case_Inr_iff simp del: run.simps list.map)
  have c: "length [10, 11, 12, 13, 14 :: nat] = 2 ^ unat (2::size_t) + 1" by simp
  from growth_two_blocks [OF a c b] show ?thesis
    by (simp add: a b del: run.simps list.map)
qed

section \<open>The operations complete\<close>

lemma grow_total:
  "blocks_ok st \<Longrightarrow> unat need + 2 ^ unat (BLOCKBITS (snd st)) \<le> 2 ^ 63 \<Longrightarrow>
   \<exists>st'. grow need st = Inr st'"
proof (induction need st rule: grow.induct)
  case (1 need st)
  show ?case
  proof (cases "container_size (snd st) < need")
    case False
    then show ?thesis by (subst grow.simps) simp
  next
    case True
    obtain h this where st: "st = (h, this)" by (cases st)
    let ?bb = "unat (BLOCKBITS this)"
    let ?nc = "unat (num_containers this)"
    from 1(2) st have ok: "blocks_ok (h, this)" by simp
    then have le: "?bb + ?nc \<le> 63" and cs: "unat (container_size this) = cap ?bb ?nc"
      by (simp_all add: blocks_ok_def)
    from True st cs have "cap ?bb ?nc < unat need" by (simp add: word_less_nat_alt)
    with 1(3) st have "cap ?bb ?nc + 2 ^ ?bb < 2 ^ 63" by simp
    then have "unat (allocsize this) < 2 ^ 63"
      by (simp only: cap_plus_base blocks_ok_allocsize [OF ok])
    from alloc_block_Inr [OF this, of h] st obtain s1 where ab: "alloc_block st = Inr s1" by auto
    obtain h1 this1 where s1: "s1 = (h1, this1)" by (cases s1)
    from ab st s1 have ab': "alloc_block (h, this) = Inr (h1, this1)" by simp
    from alloc_block_ok [OF ok ab'] s1 have ok1: "blocks_ok s1" by simp
    from le st have lt: "unat (num_containers (snd st)) < max_conts" by (simp add: max_conts_def)
    then have nn: "\<not> \<not> unat (num_containers (snd st)) < max_conts" by simp
    from alloc_block_fields [OF ab'] st s1 1(3)
    have "unat need + 2 ^ unat (BLOCKBITS (snd s1)) \<le> 2 ^ 63" by simp
    from 1(1) [OF True nn ab ok1 this] obtain st' where "grow need s1 = Inr st'" by blast
    with True lt ab show ?thesis by (subst grow.simps) simp
  qed
qed

lemma get_ref_total:
  assumes ok: "blocks_ok (h, this)" and lt: "unat i < unat (container_size this)"
    and small: "unat i + 2 ^ unat (BLOCKBITS this) < 2 ^ 31"
  shows "\<exists>r. get_ref h this i = Inr r"
proof -
  let ?bb = "unat (BLOCKBITS this)"
  let ?nc = "unat (num_containers this)"
  let ?n = "unat i + 2 ^ ?bb"
  let ?nindex = "i + 2 ^ ?bb"
  from ok have bb: "?bb < 64" and bs: "BLOCKSIZE this = 2 ^ ?bb"
    and cs: "unat (container_size this) = cap ?bb ?nc"
    and tbl: "\<forall>k < ?nc. \<exists>a b. blockLookupTable this k = Some a \<and> heap_lookup h a = Some b \<and>
           blk_len b = 2 ^ (?bb + k)"
    by (simp_all add: blocks_ok_def)
  from small have n64: "?n < 2 ^ 64" by simp
  then have un: "unat ?nindex = ?n" using bb by (simp add: unat_word_ariths unat_pow2_64)
  have "0 < ?n" by simp
  with un have nz: "?nindex \<noteq> 0" by (simp add: unat_gt_0 [symmetric] del: unat_gt_0)
  define r where "r = 63 - clz_from 64 ?nindex"
  from clz_highest_bit [OF nz] un have lo: "2 ^ r \<le> ?n" and hi: "?n < 2 ^ Suc r"
    by (simp_all add: r_def)
  have "(2::nat) ^ ?bb \<le> ?n" by simp
  with hi have "?bb < Suc r" by (intro pow2_le_lt [of ?bb ?n]) simp_all
  then have "?bb \<le> r" by simp
  define k where "k = r - ?bb"
  with \<open>?bb \<le> r\<close> have r: "r = ?bb + k" by simp
  from lo small have "r < 31" by (rule pow2_le_lt)
  with r have k31: "?bb + k < 31" by simp
  from lt cs have "?n < cap ?bb ?nc + 2 ^ ?bb" by simp
  then have ncap: "?n < 2 ^ (?bb + ?nc)" by (simp only: cap_plus_base)
  from lo hi have lo': "2 ^ (?bb + k) \<le> ?n" and hi': "?n < 2 ^ Suc (?bb + k)"
    unfolding r by blast+
  from lo' ncap have "?bb + k < ?bb + ?nc" by (rule pow2_le_lt)
  then have knc: "k < ?nc" by simp
  note gl = get_loc_Inr [OF refl lo' hi' k31]
  from tbl knc obtain a b where ab: "blockLookupTable this k = Some a" "heap_lookup h a = Some b"
    "blk_len b = 2 ^ (?bb + k)" by blast
  have uk: "unat (of_nat k :: size_t) = k" by (rule unat_of_nat_64) (use k31 in simp)
  have uo: "unat (of_nat (?n - 2 ^ (?bb + k)) :: size_t) = ?n - 2 ^ (?bb + k)"
    by (rule unat_of_nat_64) (use n64 in simp)
  from hi' have off: "?n - 2 ^ (?bb + k) < 2 ^ (?bb + k)" by simp
  from k31 have k64: "k < max_conts" by (simp add: max_conts_def)
  have "cell_ref h (blockLookupTable this) (of_nat k) (of_nat (?n - 2 ^ (?bb + k)))
          = Inr (a, ?n - 2 ^ (?bb + k))"
    using ab off k64 by (simp add: cell_ref_def uk uo)
  with gl bs show ?thesis by (simp add: get_ref_def bnd_def)
qed

lemma append_total:
  assumes inv: "PiggyList_inv st"
    and small: "unat (m_size (snd st)) + 2 ^ unat (BLOCKBITS (snd st)) < 2 ^ 31"
  shows "\<exists>st'. append v st = Inr (m_size (snd st), st')"
proof -
  let ?i = "m_size (snd st)"
  let ?s1 = "(fst st, (snd st)\<lparr>m_size := ?i + 1\<rparr>)"
  from inv have ok: "blocks_ok st" by (simp add: PiggyList_inv_def)
  then have ok1: "blocks_ok ?s1" by (simp add: blocks_ok_m_size)
  from small have i31: "unat ?i < 2 ^ 31" by simp
  then have ui: "unat (?i + 1) = Suc (unat ?i)" by (rule unat_Suc_small)
  with small have "unat (?i + 1) + 2 ^ unat (BLOCKBITS (snd ?s1)) \<le> 2 ^ 63" by simp
  from grow_total [OF ok1 this] obtain s2 where g: "grow (?i + 1) ?s1 = Inr s2" by blast
  note G = grow_ok [OF ok1 g]
  from G have ok2: "blocks_ok (fst s2, snd s2)" and ext: "extends ?s1 s2"
    and le: "?i + 1 \<le> container_size (snd s2)" by simp_all
  from le ui have lt: "unat ?i < unat (container_size (snd s2))" by (simp add: word_le_nat_alt)
  from ext have "BLOCKBITS (snd s2) = BLOCKBITS (snd st)" by (simp add: extends_def)
  with small have "unat ?i + 2 ^ unat (BLOCKBITS (snd s2)) < 2 ^ 31" by simp
  from get_ref_total [OF ok2 lt this] obtain r where "get_ref (fst s2) (snd s2) ?i = Inr r" by blast
  with g show ?thesis by (cases st; cases s2) (simp add: append_def Let_def bnd_def)
qed

lemma createNode_total:
  assumes inv: "PiggyList_inv st"
    and small: "unat (m_size (snd st)) + 1 + 2 ^ unat (BLOCKBITS (snd st)) \<le> 2 ^ 63"
  shows "\<exists>st'. createNode st = Inr (m_size (snd st), st')"
proof -
  let ?i = "m_size (snd st)"
  let ?s1 = "(fst st, (snd st)\<lparr>m_size := ?i + 1\<rparr>)"
  from inv have ok: "blocks_ok st" by (simp add: PiggyList_inv_def)
  then have ok1: "blocks_ok ?s1" by (simp add: blocks_ok_m_size)
  from small have "unat ?i + 1 < 2 ^ 64" by simp
  then have "unat (?i + 1) = Suc (unat ?i)" by (rule unat_Suc_nowrap)
  with small have "unat (?i + 1) + 2 ^ unat (BLOCKBITS (snd ?s1)) \<le> 2 ^ 63" by simp
  from grow_total [OF ok1 this] obtain s2 where g: "grow (?i + 1) ?s1 = Inr s2" by blast
  then show ?thesis by (cases st; cases s2) (simp add: createNode_def Let_def bnd_def)
qed

lemma heap_lookup_delete:
  "heap_lookup (h[a := None]) a' = (if a' = a then None else heap_lookup h a')"
  by (auto simp: heap_lookup_def)

lemma free_blocks_total:
  "distinct ks \<Longrightarrow> inj_on tbl (set ks) \<Longrightarrow>
   \<forall>k \<in> set ks. k < max_conts \<and> (\<exists>a b. tbl k = Some a \<and> heap_lookup h a = Some b) \<Longrightarrow>
   \<exists>h'. free_blocks tbl ks h = Inr h'"
proof (induction ks arbitrary: h)
  case Nil
  show ?case by simp
next
  case (Cons k ks)
  from Cons.prems(3) obtain a b where k: "k < max_conts" "tbl k = Some a" "heap_lookup h a = Some b"
    by auto
  have rest: "\<forall>k' \<in> set ks. k' < max_conts \<and>
      (\<exists>a' b'. tbl k' = Some a' \<and> heap_lookup (h[a := None]) a' = Some b')"
  proof
    fix k' assume k': "k' \<in> set ks"
    with Cons.prems(3) obtain a' b' where a': "k' < max_conts" "tbl k' = Some a'"
      "heap_lookup h a' = Some b'" by auto
    from k' Cons.prems(1) have "k' \<noteq> k" by auto
    with inj_onD [OF Cons.prems(2), of k' k] k' have "tbl k' \<noteq> tbl k" by auto
    with a' k have "a' \<noteq> a" by auto
    with a' show "k' < max_conts \<and>
        (\<exists>a' b'. tbl k' = Some a' \<and> heap_lookup (h[a := None]) a' = Some b')"
      by (simp add: heap_lookup_delete)
  qed
  from Cons.prems(1,2) have "distinct ks" "inj_on tbl (set ks)" by (auto simp: inj_on_def)
  from Cons.IH [OF this rest] obtain h' where "free_blocks tbl ks (h[a := None]) = Inr h'" by blast
  with k show ?case by (simp add: delete_array_def bnd_def)
qed

lemma clear_total:
  assumes ok: "blocks_ok st"
  shows "\<exists>st'. clear st = Inr st'"
proof -
  obtain h this where st: "st = (h, this)" by (cases st)
  let ?nc = "unat (num_containers this)"
  from ok st have le: "?nc \<le> 64"
    and tbl: "\<forall>k < ?nc. \<exists>a b. blockLookupTable this k = Some a \<and> heap_lookup h a = Some b \<and>
           blk_len b = 2 ^ (unat (BLOCKBITS this) + k)"
    and inj: "inj_on (blockLookupTable this) {..< ?nc}"
    by (simp_all add: blocks_ok_def)
  have "\<forall>k \<in> set [0 ..< ?nc]. k < max_conts \<and>
      (\<exists>a b. blockLookupTable this k = Some a \<and> heap_lookup h a = Some b)"
    using tbl le by (auto simp: max_conts_def)
  moreover have "inj_on (blockLookupTable this) (set [0 ..< ?nc])"
    using inj by (simp add: lessThan_atLeast0)
  ultimately obtain h' where "free_blocks (blockLookupTable this) [0 ..< ?nc] h = Inr h'"
    using free_blocks_total [of "[0 ..< ?nc]" "blockLookupTable this" h] by auto
  with st show ?thesis by (simp add: clear_def freeList_def bnd_def)
qed

section \<open>Clearing\<close>

lemma cap_eq_0: "cap bb k < 1 \<Longrightarrow> k = 0"
proof (rule ccontr)
  assume a: "cap bb k < 1" and "k \<noteq> 0"
  then have "1 \<le> k" by simp
  then have "cap bb (Suc 0) \<le> cap bb k" by (intro cap_mono) simp
  moreover have "(1::nat) \<le> 2 ^ bb" by simp
  ultimately show False using a by (simp only: cap_1)
qed

lemma first_append:
  assumes inv: "PiggyList_inv st" and m: "m_size (snd st) = 0" and n: "num_containers (snd st) = 0"
    and a: "append v st = Inr (i, st')"
  shows "i = 0 \<and> num_containers (snd st') = 1 \<and>
         block_len (fst st') (snd st') 0 = 2 ^ unat (BLOCKBITS (snd st))"
proof -
  from inv have ok: "blocks_ok st" by (simp add: PiggyList_inv_def)
  from append_ok [OF ok a] have i: "i = m_size (snd st)" by metis
  from a have s: "step (Append v) st = Inr st'" by (simp add: bnd_def)
  from n have t: "tight (snd st)" by (simp add: tight_def)
  from step_tight [OF inv t s] m
  have t': "tight (snd st')" and m': "unat (m_size (snd st')) = 1" by simp_all
  from step_inv [OF inv s] have inv': "PiggyList_inv st'"
    and bb: "BLOCKBITS (snd st') = BLOCKBITS (snd st)" by simp_all
  obtain h' this' where st': "st' = (h', this')" by (cases st')
  let ?bb = "unat (BLOCKBITS this')"
  let ?nc = "unat (num_containers this')"
  from inv' st' have ok': "blocks_ok (h', this')" and le: "m_size this' \<le> container_size this'"
    by (simp_all add: PiggyList_inv_def)
  from ok' have cs: "unat (container_size this') = cap ?bb ?nc"
    and tbl: "\<forall>k < ?nc. \<exists>a b. blockLookupTable this' k = Some a \<and> heap_lookup h' a = Some b \<and>
           blk_len b = 2 ^ (?bb + k)"
    by (simp_all add: blocks_ok_def)
  from le m' cs st' have hi: "1 \<le> cap ?bb ?nc" by (simp add: word_le_nat_alt)
  have nz: "num_containers this' \<noteq> 0"
  proof
    assume "num_containers this' = 0"
    with hi show False by (simp add: cap_0)
  qed
  with t' m' st' have "cap ?bb (?nc - 1) < 1" by (simp add: tight_def)
  then have "?nc - 1 = 0" by (rule cap_eq_0)
  moreover from nz have "?nc \<noteq> 0" by (simp add: unat_eq_0)
  ultimately have nc1: "?nc = 1" by simp
  then have "unat (num_containers this') = unat (1::size_t)" by simp
  then have nc: "num_containers this' = 1" by (simp only: word_unat_eq_iff)
  from nc1 have "0 < ?nc" by simp
  with tbl obtain a b where "blockLookupTable this' 0 = Some a" "heap_lookup h' a = Some b"
    "blk_len b = 2 ^ (?bb + 0)" by blast
  then have "block_len h' this' 0 = 2 ^ ?bb" by (simp add: block_len_def)
  with i m nc bb st' show ?thesis by simp
qed

text \<open>
  Claim C8 (clear resets). On a list reached by any completed sequence of calls,
  \<^verbatim>\<open>clear()\<close> completes; afterwards \<^verbatim>\<open>size()\<close> is 0 and the block count, the capacity
  and the next allocation size are those of a fresh list (0, 0 and the base block size).
  The next \<^verbatim>\<open>append\<close>, when it returns, returns the index 0 and has allocated one block of
  the base block size in slot 0; it does return when \<open>BLOCKBITS < 31\<close>.
\<close>

theorem clear_resets:
  assumes new: "PiggyList_new bits = Inr this0" and run: "run ops (h0, this0) = Inr st"
  shows "\<exists>st'. clear st = Inr st' \<and>
           PiggyList_size (snd st') = 0 \<and> num_containers (snd st') = 0 \<and>
           container_size (snd st') = 0 \<and> allocsize (snd st') = 2 ^ unat bits \<and>
           (\<forall>v i st''. append v st' = Inr (i, st'') \<longrightarrow>
              i = 0 \<and> num_containers (snd st'') = 1 \<and>
              block_len (fst st'') (snd st'') 0 = 2 ^ unat bits) \<and>
           (unat bits < 31 \<longrightarrow> (\<forall>v. \<exists>st''. append v st' = Inr (0, st'')))"
proof -
  from PiggyList_new_inv [OF new, of h0]
  have inv0: "PiggyList_inv (h0, this0)" and b0: "BLOCKBITS this0 = bits" by simp_all
  from run_inv [OF inv0 run] b0
  have inv: "PiggyList_inv st" and bb: "BLOCKBITS (snd st) = bits" by simp_all
  then have ok: "blocks_ok st" by (simp add: PiggyList_inv_def)
  from ok bb have bs: "BLOCKSIZE (snd st) = 2 ^ unat bits"
    by (cases st) (simp add: blocks_ok_def)
  from clear_total [OF ok] obtain st' where c: "clear st = Inr st'" by blast
  note C = clear_ok [OF ok c]
  from C have inv': "PiggyList_inv st'" and bb': "BLOCKBITS (snd st') = BLOCKBITS (snd st)"
    and m: "m_size (snd st') = 0" and n: "num_containers (snd st') = 0"
    and cs: "container_size (snd st') = 0" and al: "allocsize (snd st') = BLOCKSIZE (snd st)"
    by simp_all
  have first: "i = 0 \<and> num_containers (snd st'') = 1 \<and>
        block_len (fst st'') (snd st'') 0 = 2 ^ unat bits"
    if "append v st' = Inr (i, st'')" for v :: 'a and i st''
    using first_append [OF inv' m n that] bb' bb by simp
  have total: "\<exists>st''. append v st' = Inr (0, st'')" if "unat bits < 31" for v :: 'a
  proof -
    from that have "(2::nat) ^ unat bits < 2 ^ 31"
      by (simp only: power_strict_increasing_iff one_less_numeral_iff semiring_norm)
    with m bb' bb have "unat (m_size (snd st')) + 2 ^ unat (BLOCKBITS (snd st')) < 2 ^ 31" by simp
    from append_total [OF inv' this, of v] m show ?thesis by simp
  qed
  from c m n cs al bs first total show ?thesis
    by (intro exI [of _ st']) (simp add: PiggyList_size_def)
qed

lemma run_appends_total:
  "PiggyList_inv st \<Longrightarrow>
   unat (m_size (snd st)) + length vs + 2 ^ unat (BLOCKBITS (snd st)) \<le> 2 ^ 31 \<Longrightarrow>
   \<exists>st'. run (map Append vs) st = Inr st'"
proof (induction vs arbitrary: st)
  case Nil
  show ?case by simp
next
  case (Cons v vs)
  from Cons.prems(2) have small: "unat (m_size (snd st)) + 2 ^ unat (BLOCKBITS (snd st)) < 2 ^ 31"
    by simp
  from append_total [OF Cons.prems(1) small, of v] obtain s1
    where a: "append v st = Inr (m_size (snd st), s1)" by blast
  then have s: "step (Append v) st = Inr s1" by (simp add: bnd_def)
  from step_inv [OF Cons.prems(1) s] have inv1: "PiggyList_inv s1"
    and bb: "BLOCKBITS (snd s1) = BLOCKBITS (snd st)" by simp_all
  from Cons.prems(1) have ok: "blocks_ok st" by (simp add: PiggyList_inv_def)
  from append_ok [OF ok a] have m1: "m_size (snd s1) = m_size (snd st) + 1" by metis
  from small have "unat (m_size (snd st)) < 2 ^ 31" by simp
  then have "unat (m_size (snd st) + 1) = Suc (unat (m_size (snd st)))" by (rule unat_Suc_small)
  with m1 bb Cons.prems(2)
  have "unat (m_size (snd s1)) + length vs + 2 ^ unat (BLOCKBITS (snd s1)) \<le> 2 ^ 31" by simp
  from Cons.IH [OF inv1 this] obtain st' where "run (map Append vs) s1 = Inr st'" by blast
  with s show ?case by (simp add: bnd_def)
qed

lemma growth_completes:
  assumes new: "PiggyList_new bits = Inr this0" and small: "unat bits \<le> 29"
    and len: "length vs = 2 ^ unat bits + 1"
  shows "\<exists>st. run (map Append vs) (h0, this0) = Inr st"
proof -
  from PiggyList_new_inv [OF new, of h0]
  have inv0: "PiggyList_inv (h0, this0)" and b0: "BLOCKBITS this0 = bits"
    and m0: "m_size this0 = 0" by simp_all
  from small have "(2::nat) ^ unat bits \<le> 2 ^ 29" by (intro power_increasing) simp_all
  with len m0 b0
  have "unat (m_size (snd (h0, this0))) + length vs + 2 ^ unat (BLOCKBITS (snd (h0, this0))) \<le> 2 ^ 31"
    by simp
  from run_appends_total [OF inv0 this] show ?thesis .
qed

theorem clear_resets_witness:
  "case PiggyList_new 1 of Inl e \<Rightarrow> False
   | Inr this0 \<Rightarrow>
       (case run [Append (5::nat), Append 2, CreateNode, Append 4] ([], this0) of
          Inl e \<Rightarrow> False
        | Inr st \<Rightarrow>
            (case clear st of Inl e \<Rightarrow> False
             | Inr st' \<Rightarrow>
                 PiggyList_size (snd st') = 0 \<and> num_containers (snd st') = 0 \<and>
                 container_size (snd st') = 0 \<and> allocsize (snd st') = 2 \<and>
                 unat (1::size_t) < 31 \<and>
                 (case append 9 st' of Inl e \<Rightarrow> False
                  | Inr (i, st'') \<Rightarrow>
                      i = 0 \<and> num_containers (snd st'') = 1 \<and>
                      block_len (fst st'') (snd st'') 0 = 2)))"
proof -
  have "case PiggyList_new 1 of Inl e \<Rightarrow> False
   | Inr this0 \<Rightarrow>
       (case run [Append (5::nat), Append 2, CreateNode, Append 4] ([], this0) of
          Inl e \<Rightarrow> False
        | Inr st \<Rightarrow> True)"
    by code_simp
  then obtain this0 st where a: "PiggyList_new 1 = Inr this0"
    and b: "run [Append (5::nat), Append 2, CreateNode, Append 4] ([], this0) = Inr st"
    by (auto simp: case_Inr_iff simp del: run.simps)
  from clear_resets [OF a b] obtain st' where c: "clear st = Inr st'"
    and d: "PiggyList_size (snd st') = 0" "num_containers (snd st') = 0"
      "container_size (snd st') = 0" "allocsize (snd st') = 2 ^ unat (1::size_t)"
    and e: "\<And>v i st''. append v st' = Inr (i, st'') \<Longrightarrow>
              i = 0 \<and> num_containers (snd st'') = 1 \<and>
              block_len (fst st'') (snd st'') 0 = 2 ^ unat (1::size_t)"
    and f: "unat (1::size_t) < 31 \<Longrightarrow> \<exists>st''. append (9::nat) st' = Inr (0, st'')"
    by blast
  have "unat (1::size_t) < 31" by simp
  from f [OF this] obtain st'' where g: "append 9 st' = Inr (0, st'')" by blast
  from e [OF g] d show ?thesis
    by (simp add: a b c g del: run.simps)
qed

section \<open>RandomInsertPiggyList counts insertions\<close>

lemma insertAt_size:
  assumes "insertAt index v st = Inr st'"
  shows "numElements (snd st') = numElements (snd st) + 1"
  using assms
  by (cases st)
     (auto simp: insertAt_def bnd_Inr_iff Let_def new_array_Inr_iff split: if_splits option.splits)

lemma insertAll_size:
  "insertAll xs st = Inr st' \<Longrightarrow> numElements (snd st') = numElements (snd st) + of_nat (length xs)"
proof (induction xs arbitrary: st)
  case Nil
  then show ?case by simp
next
  case (Cons x xs)
  obtain index v where x: "x = (index, v)" by (cases x)
  from Cons.prems x obtain s1 where a: "insertAt index v st = Inr s1" and b: "insertAll xs s1 = Inr st'"
    by (auto simp: bnd_Inr_iff)
  from insertAt_size [OF a] Cons.IH [OF b] show ?case by simp
qed

text \<open>
  Claim C6 (insertion-count semantics of RandomInsertPiggyList). After any completed
  sequence of \<^verbatim>\<open>insertAt\<close> calls on a fresh list, repeated indices included, \<^verbatim>\<open>size()\<close> is
  the number of calls as a \<^verbatim>\<open>size_t\<close>, so the number itself while it is below \<open>2 ^ 64\<close>,
  and two further calls with the same index add 2 to \<^verbatim>\<open>size()\<close>.
\<close>

theorem insertion_count:
  assumes "RandomInsertPiggyList_new bits = Inr this0"
    and "insertAll xs (h0, this0) = Inr st"
  shows "RandomInsertPiggyList_size (snd st) = of_nat (length xs) \<and>
         (length xs < 2 ^ 64 \<longrightarrow> unat (RandomInsertPiggyList_size (snd st)) = length xs) \<and>
         (\<forall>index v w st1 st2.
            insertAt index v st = Inr st1 \<longrightarrow> insertAt index w st1 = Inr st2 \<longrightarrow>
            RandomInsertPiggyList_size (snd st2) = RandomInsertPiggyList_size (snd st) + 2)"
proof -
  from assms(1) have "numElements this0 = 0"
    by (auto simp: RandomInsertPiggyList_new_def bnd_Inr_iff)
  with insertAll_size [OF assms(2)] have e: "numElements (snd st) = of_nat (length xs)" by simp
  then have "unat (numElements (snd st)) = length xs" if "length xs < 2 ^ 64"
    using that by (simp add: unat_of_nat_64)
  moreover note e
  moreover have "numElements (snd st2) = numElements (snd st) + 2"
    if "insertAt index v st = Inr st1" "insertAt index w st1 = Inr st2"
    for index and v w :: 'a and st1 st2
    using insertAt_size [OF that(1)] insertAt_size [OF that(2)] by simp
  ultimately show ?thesis by (simp add: RandomInsertPiggyList_size_def)
qed

theorem insertion_count_witness:
  "case RandomInsertPiggyList_new 1 of Inl e \<Rightarrow> False
   | Inr this0 \<Rightarrow>
       (case insertAll [(0, 5::nat), (3, 6), (0, 7)] ([], this0) of Inl e \<Rightarrow> False
        | Inr st \<Rightarrow>
            length [(0::size_t, 5::nat), (3, 6), (0, 7)] < 2 ^ 64 \<and>
            unat (RandomInsertPiggyList_size (snd st)) = 3 \<and>
            (case insertAt 4 8 st of Inl e \<Rightarrow> False
             | Inr st1 \<Rightarrow>
                 (case insertAt 4 9 st1 of Inl e \<Rightarrow> False
                  | Inr st2 \<Rightarrow>
                      RandomInsertPiggyList_size (snd st2) =
                        RandomInsertPiggyList_size (snd st) + 2 \<and>
                      RandomInsertPiggyList_size (snd st2) = 5 \<and>
                      get_R (fst st2) (snd st2) 4 = Inr 9 \<and>
                      get_R (fst st2) (snd st2) 0 = Inr 7)))"
proof -
  have "case RandomInsertPiggyList_new 1 of Inl e \<Rightarrow> False
   | Inr this0 \<Rightarrow>
       (case insertAll [(0, 5::nat), (3, 6), (0, 7)] ([], this0) of Inl e \<Rightarrow> False
        | Inr st \<Rightarrow>
            (case insertAt 4 8 st of Inl e \<Rightarrow> False
             | Inr st1 \<Rightarrow>
                 (case insertAt 4 9 st1 of Inl e \<Rightarrow> False
                  | Inr st2 \<Rightarrow> get_R (fst st2) (snd st2) 4 = Inr 9 \<and>
                      get_R (fst st2) (snd st2) 0 = Inr 7)))"
    by code_simp
  then obtain this0 st st1 st2 where a: "RandomInsertPiggyList_new 1 = Inr this0"
    and b: "insertAll [(0, 5::nat), (3, 6), (0, 7)] ([], this0) = Inr st"
    and c: "insertAt 4 8 st = Inr st1" and d: "insertAt 4 9 st1 = Inr st2"
    and e: "get_R (fst st2) (snd st2) 4 = Inr 9" "get_R (fst st2) (snd st2) 0 = Inr 7"
    by (auto simp: case_Inr_iff simp del: insertAll.simps)
  have f: "length [(0::size_t, 5::nat), (3, 6), (0, 7)] < 2 ^ 64" by simp
  note T = insertion_count [OF a b]
  from T f have s3: "unat (RandomInsertPiggyList_size (snd st)) = 3" by simp
  from T c d have inc: "RandomInsertPiggyList_size (snd st2) =
      RandomInsertPiggyList_size (snd st) + 2" by blast
  from s3 have "RandomInsertPiggyList_size (snd st) = of_nat 3" by (rule word_eq_unatI)
  with inc have s5: "RandomInsertPiggyList_size (snd st2) = 5" by simp
  from s3 inc s5 e show ?thesis
    by (simp add: a b c d del: insertAll.simps)
qed

section \<open>Where the code departs from the claims\<close>

lemma Inl_case_iff:
  "(case r of Inl e \<Rightarrow> e = f | Inr x \<Rightarrow> False) \<longleftrightarrow> r = Inl f"
  by (cases r) auto

lemma get_loc_nat:
  fixes bits :: size_t
  assumes "2 ^ (unat bits + k) \<le> i + 2 ^ unat bits" "i + 2 ^ unat bits < 2 ^ Suc (unat bits + k)"
    and "unat bits + k < 31"
  shows "get_loc bits (2 ^ unat bits) (of_nat i) =
           Inr (of_nat k, of_nat (i + 2 ^ unat bits - 2 ^ (unat bits + k)))"
proof -
  have "(2::nat) ^ Suc (unat bits + k) \<le> 2 ^ 31" using assms(3) by (intro power_increasing) simp_all
  with assms(2) have "i < 2 ^ 64" by simp
  then have u: "unat (of_nat i :: size_t) = i" by (rule unat_of_nat_64)
  from get_loc_Inr [of "unat (of_nat i :: size_t) + 2 ^ unat bits" "of_nat i" bits k] assms u
  show ?thesis by simp
qed

text \<open>
  The boundary indices of the first three blocks, for a base block size
  \<open>B = 2 ^ BLOCKBITS\<close> with \<open>BLOCKBITS \<le> 28\<close>.
\<close>

lemma get_loc_boundaries:
  fixes bits :: size_t
  assumes small: "unat bits \<le> 28"
  shows "get_loc bits (2 ^ unat bits) 0 = Inr (0, 0)"
    and "get_loc bits (2 ^ unat bits) (2 ^ unat bits - 1) = Inr (0, 2 ^ unat bits - 1)"
    and "get_loc bits (2 ^ unat bits) (2 ^ unat bits) = Inr (1, 0)"
    and "get_loc bits (2 ^ unat bits) (3 * 2 ^ unat bits - 1) = Inr (1, 2 * 2 ^ unat bits - 1)"
    and "get_loc bits (2 ^ unat bits) (3 * 2 ^ unat bits) = Inr (2, 0)"
proof -
  let ?B = "(2::nat) ^ unat bits"
  have p: "1 \<le> ?B" by simp
  have p1: "(2::nat) ^ (unat bits + 1) = 2 * ?B" and p1': "(2::nat) ^ Suc (unat bits + 0) = 2 * ?B"
    and p2: "(2::nat) ^ (unat bits + 2) = 4 * ?B" and p2': "(2::nat) ^ Suc (unat bits + 1) = 4 * ?B"
    and p3: "(2::nat) ^ Suc (unat bits + 2) = 8 * ?B" and p0: "(2::nat) ^ (unat bits + 0) = ?B"
    by (simp_all add: power_add)
  from small have c0: "unat bits + 0 < 31" and c1: "unat bits + 1 < 31" and c2: "unat bits + 2 < 31"
    by simp_all
  have "?B \<le> 0 + ?B" "0 + ?B < 2 * ?B" using p by linarith+
  then have "2 ^ (unat bits + 0) \<le> 0 + ?B" "0 + ?B < 2 ^ Suc (unat bits + 0)"
    by (simp_all only: p0 p1')
  from get_loc_nat [OF this c0] show "get_loc bits (2 ^ unat bits) 0 = Inr (0, 0)" by simp
  have "?B \<le> (?B - 1) + ?B" "(?B - 1) + ?B < 2 * ?B" using p by linarith+
  then have "2 ^ (unat bits + 0) \<le> (?B - 1) + ?B" "(?B - 1) + ?B < 2 ^ Suc (unat bits + 0)"
    by (simp_all only: p0 p1')
  from get_loc_nat [OF this c0]
  show "get_loc bits (2 ^ unat bits) (2 ^ unat bits - 1) = Inr (0, 2 ^ unat bits - 1)"
    by (simp add: of_nat_diff)
  have "2 * ?B \<le> ?B + ?B" "?B + ?B < 4 * ?B" using p by linarith+
  then have "2 ^ (unat bits + 1) \<le> ?B + ?B" "?B + ?B < 2 ^ Suc (unat bits + 1)"
    by (simp_all only: p1 p2')
  from get_loc_nat [OF this c1] show "get_loc bits (2 ^ unat bits) (2 ^ unat bits) = Inr (1, 0)"
    by simp
  have "2 * ?B \<le> (3 * ?B - 1) + ?B" "(3 * ?B - 1) + ?B < 4 * ?B" using p by linarith+
  then have a: "2 ^ (unat bits + 1) \<le> (3 * ?B - 1) + ?B" "(3 * ?B - 1) + ?B < 2 ^ Suc (unat bits + 1)"
    by (simp_all only: p1 p2')
  have "(3 * ?B - 1) + ?B - 2 * ?B = 2 * ?B - 1" using p by linarith
  then have e: "(3 * ?B - 1) + ?B - 2 ^ (unat bits + 1) = 2 * ?B - 1" by (simp only: p1)
  from get_loc_nat [OF a c1] p
  show "get_loc bits (2 ^ unat bits) (3 * 2 ^ unat bits - 1) = Inr (1, 2 * 2 ^ unat bits - 1)"
    unfolding e by (simp add: of_nat_diff)
  have "4 * ?B \<le> 3 * ?B + ?B" "3 * ?B + ?B < 8 * ?B" using p by linarith+
  then have b: "2 ^ (unat bits + 2) \<le> 3 * ?B + ?B" "3 * ?B + ?B < 2 ^ Suc (unat bits + 2)"
    by (simp_all only: p2 p3)
  have "3 * ?B + ?B - 4 * ?B = 0" by simp
  then have e2: "3 * ?B + ?B - 2 ^ (unat bits + 2) = 0" by (simp only: p2)
  from get_loc_nat [OF b c2]
  show "get_loc bits (2 ^ unat bits) (3 * 2 ^ unat bits) = Inr (2, 0)"
    unfolding e2 by simp
qed

text \<open>
  Claim C1 (mapping correctness at block boundaries) fails on the code. For a list
  constructed with \<^verbatim>\<open>BLOCKBITS = 32\<close>, so \<open>B = 2 ^ 32\<close>, the claim maps the index \<open>B - 1\<close> to
  slot 0, offset \<open>B - 1\<close>. In \<^verbatim>\<open>get\<close>, \<open>nindex = 2 ^ 33 - 1\<close> and \<open>blockNum = 32\<close>, and the
  mask \<^verbatim>\<open>(1 << blockNum) - 1\<close> shifts the \<^verbatim>\<open>int\<close> 1 by 32 bits: the behaviour is undefined and
  no location is computed. (The five boundary indices are mapped as the claim says when
  \<open>BLOCKBITS \<le> 28\<close>: lemma \<open>get_loc_boundaries\<close>.)
\<close>

theorem boundary_undefined:
  "\<exists>this. PiggyList_new 32 = Inr this \<and> BLOCKSIZE this = 2 ^ 32 \<and>
     (\<forall>h :: 'a heap. get_ref h this (2 ^ 32 - 1) = Inl UndefinedShift)"
proof -
  have "get_loc 32 (2 ^ 32) (2 ^ 32 - 1) = Inl UndefinedShift" by code_simp
  then show ?thesis
    by (simp add: PiggyList_new_def shl_size_t_def bnd_def get_ref_def)
qed

text \<open>
  Claim C5 (addressing range) fails on the code. On a default list (\<open>B = 2 ^ 16\<close>) the index
  \<open>2 ^ 32\<close> is within the range of the claim, and the claim maps it to slot 16, offset
  \<open>2 ^ 16\<close>; \<^verbatim>\<open>get\<close> finds \<open>blockNum = 32\<close> and the \<^verbatim>\<open>int\<close> shift \<^verbatim>\<open>1 << 32\<close> is undefined.
  Lemma \<open>get_loc_UndefinedShift\<close>: the same holds for every index with
  \<open>idx + B \<ge> 2 ^ 31\<close>.
\<close>

theorem addressing_range_undefined:
  "\<exists>this. PiggyList_default = Inr this \<and> BLOCKSIZE this = 2 ^ 16 \<and>
     (\<forall>h :: 'a heap. get h this (2 ^ 32) = Inl UndefinedShift)"
proof -
  have "get_loc 16 (2 ^ 16) (2 ^ 32) = Inl UndefinedShift" by code_simp
  then show ?thesis
    by (simp add: PiggyList_default_def PiggyList_new_def shl_size_t_def bnd_def get_def get_ref_def)
qed

text \<open>
  \<^verbatim>\<open>append\<close> stores the element through \<^verbatim>\<open>get(new_index)\<close>, so it computes the same mask. On
  a list reached by completed calls, an \<^verbatim>\<open>append\<close> that returns the index \<open>i\<close> has
  \<open>i + B < 2 ^ 31\<close>; from a state with \<open>m_size + B \<ge> 2 ^ 31\<close> no \<^verbatim>\<open>append\<close> has a defined
  result.
\<close>

lemma append_returns_small:
  assumes "PiggyList_new bits = Inr this0" and "run ops0 (h0, this0) = Inr st0"
    and "append v st0 = Inr (i, st1)"
  shows "unat i + 2 ^ unat bits < 2 ^ 31"
proof -
  from PiggyList_new_inv [OF assms(1), of h0]
  have i0: "PiggyList_inv (h0, this0)" and b0: "BLOCKBITS this0 = bits" by simp_all
  from run_inv [OF i0 assms(2)] b0
  have inv0: "PiggyList_inv st0" and bb0: "BLOCKBITS (snd st0) = bits" by simp_all
  from inv0 have ok0: "blocks_ok st0" by (simp add: PiggyList_inv_def)
  from append_ok [OF ok0 assms(3)] obtain h2 r where
    g: "get_ref h2 (snd st1) i = Inr r" and h1: "fst st1 = heap_write h2 r v"
    and inv1: "PiggyList_inv st1"
    and ext: "extends (fst st0, (snd st0)\<lparr>m_size := i + 1\<rparr>) (h2, snd st1)" by metis
  from ext bb0 have bb1: "BLOCKBITS (snd st1) = bits" by (simp add: extends_def)
  from g h1 have g1: "get_ref (fst st1) (snd st1) i = Inr r" by (simp add: get_ref_heap_write)
  from inv1 have "blocks_ok (fst st1, snd st1)" by (simp add: PiggyList_inv_def)
  from get_ref_small [OF this g1] bb1 show ?thesis by simp
qed

lemma append_beyond_range:
  assumes "PiggyList_new bits = Inr this0" and "run ops0 (h0, this0) = Inr st0"
    and "2 ^ 31 \<le> unat (m_size (snd st0)) + 2 ^ unat bits"
  shows "\<exists>e. append v st0 = Inl e"
proof (cases "append v st0")
  case (Inl e)
  then show ?thesis by simp
next
  case (Inr x)
  obtain i st1 where x: "x = (i, st1)" by (cases x)
  from PiggyList_new_inv [OF assms(1), of h0]
  have i0: "PiggyList_inv (h0, this0)" by simp
  from run_inv [OF i0 assms(2)] have "blocks_ok st0" by (simp add: PiggyList_inv_def)
  from append_ok [OF this Inr [unfolded x]] have "i = m_size (snd st0)" by metis
  with append_returns_small [OF assms(1,2) Inr [unfolded x]] assms(3) show ?thesis by simp
qed

text \<open>
  Claim C2 (stability) fails on the code. The claim is about every sequence of \<^verbatim>\<open>append\<close>
  calls on a list, however long and whatever the base block size. On a list constructed
  with \<^verbatim>\<open>BLOCKBITS = 32\<close> (\<open>B = 2 ^ 32\<close>) already the first \<^verbatim>\<open>append(v)\<close> has no defined
  result: it allocates the first block and stores \<open>v\<close> through \<^verbatim>\<open>get(0)\<close>, where
  \<open>nindex = 2 ^ 32\<close>, \<open>blockNum = 32\<close> and the mask \<^verbatim>\<open>(1 << blockNum) - 1\<close> shifts the \<^verbatim>\<open>int\<close> 1
  by 32 bits. No location is determined for \<open>v\<close>, so nothing guarantees that a later
  \<^verbatim>\<open>get(0)\<close> returns it. Stability holds for the indices with \<open>i + B < 2 ^ 31\<close> (lemma
  \<open>append_stable_in_range\<close>), and no \<^verbatim>\<open>append\<close> beyond them is defined (lemma
  \<open>append_beyond_range\<close>).
\<close>

theorem stability_undefined:
  "\<exists>this. PiggyList_new 32 = Inr this \<and> BLOCKSIZE this = 2 ^ 32 \<and>
     (\<forall>(h :: 'a heap) v. append v (h, this) = Inl UndefinedShift)"
proof -
  have g: "get_loc 32 (2 ^ 32) 0 = Inl UndefinedShift" by code_simp
  have n: "\<And>h :: 'a heap. new_array (2 ^ 32) h =
      Inr (length h, h @ [Some \<lparr>blk_len = unat (2 ^ 32 :: size_t), cells = (\<lambda>_. None)\<rparr>])"
    by (simp add: new_array_def)
  show ?thesis using g n
    by (simp add: PiggyList_new_def shl_size_t_def bnd_def get_ref_def append_def
        grow.simps [of 1] alloc_block_def max_conts_def)
qed

text \<open>
  After the loop of the copy constructor \<^verbatim>\<open>cSize\<close> is \<open>B * 2 ^ num_containers\<close>, so the
  assertion compares the length of the last block with the sum of the lengths: the copy
  of a reachable list returns only if the list has exactly one block (or none, with
  \<open>B = 1\<close>).
\<close>

lemma copy_blocks_cSize:
  "copy_blocks other_tbl ks (cSize, h, tbl) = Inr (cSize', h', tbl') \<Longrightarrow>
   cSize' = push_bit (length ks) cSize"
proof (induction ks arbitrary: cSize h tbl)
  case Nil
  then show ?case by simp
next
  case (Cons k ks)
  from Cons.prems obtain a h1 h2 where
    "copy_blocks other_tbl ks (push_bit 1 cSize, h2, tbl(k := Some a)) = Inr (cSize', h', tbl')"
    by (auto simp: bnd_Inr_iff split: if_splits)
  from Cons.IH [OF this] show ?case by (simp add: push_bit_eq_mult)
qed

lemma copy_assertion_one_block:
  assumes ok: "blocks_ok st" and c: "PiggyList_copy st = Inr r"
  shows "unat (num_containers (snd st)) = 1 \<or>
         (num_containers (snd st) = 0 \<and> BLOCKBITS (snd st) = 0)"
proof -
  obtain h this where st: "st = (h, this)" by (cases st)
  let ?bb = "unat (BLOCKBITS this)"
  let ?nc = "unat (num_containers this)"
  from ok st have le: "?bb + ?nc \<le> 63" and cs: "unat (container_size this) = cap ?bb ?nc"
    by (simp_all add: blocks_ok_def)
  from c st obtain cSize h' tbl where
    cb: "copy_blocks (blockLookupTable this) [0 ..< ?nc] (push_bit ?bb 1, h, (\<lambda>_. None)) = Inr (cSize, h', tbl)"
    and a: "drop_bit 1 cSize = container_size this"
    by (auto simp: PiggyList_copy_def shl_size_t_def bnd_Inr_iff Let_def split: if_splits)
  from copy_blocks_cSize [OF cb] have "cSize = 2 ^ (?bb + ?nc)"
    by (simp add: push_bit_eq_mult power_add mult.commute)
  moreover have "unat ((2::size_t) ^ (?bb + ?nc)) = 2 ^ (?bb + ?nc)"
    by (rule unat_pow2_64) (use le in simp)
  ultimately have "unat (drop_bit 1 cSize) = 2 ^ (?bb + ?nc) div 2"
    by (simp add: unat_drop_bit_eq drop_bit_eq_div unat_div)
  with a cs have e: "2 ^ (?bb + ?nc) div 2 = cap ?bb ?nc" by simp
  show ?thesis
  proof (cases "?nc = 0")
    case True
    with e have "(2::nat) ^ ?bb div 2 = 0" by (simp add: cap_0)
    then have "?bb = 0" by (cases ?bb) simp_all
    with True st show ?thesis by (simp add: unat_eq_0)
  next
    case False
    then obtain n where n: "?nc = Suc n" by (cases ?nc) simp_all
    have "(2::nat) ^ (?bb + Suc n) div 2 = 2 ^ (?bb + n)" by simp
    with e n have e': "2 ^ (?bb + n) = cap ?bb (Suc n)" by simp
    have "cap ?bb (Suc n) + 2 ^ ?bb = 2 * 2 ^ (?bb + n)"
      using cap_plus_base [of ?bb "Suc n"] by simp
    with e' have "(2::nat) ^ ?bb = 2 ^ (?bb + n)" by simp
    then have "?bb = ?bb + n" by (simp only: power_inject_exp one_less_numeral_iff semiring_norm)
    with n st show ?thesis by simp
  qed
qed

text \<open>
  Claim C10 (the assertion of the copy constructor holds) fails on the code. Copying a
  freshly constructed default list stops at the assertion: the loop does not run, \<^verbatim>\<open>cSize\<close>
  is \<open>2 ^ 16\<close>, and \<^verbatim>\<open>cSize >> 1 = 32768\<close> is compared with \<^verbatim>\<open>container_size = 0\<close>. So does
  copying a list with two blocks: \<^verbatim>\<open>cSize >> 1\<close> is the length of the last block, not the
  sum of the lengths (lemma \<open>copy_assertion_one_block\<close>).
\<close>

theorem copy_assertion_fails:
  "(\<exists>this0. PiggyList_default = Inr this0 \<and>
      (\<forall>h :: 'a heap. PiggyList_copy (h, this0) = Inl AssertionFailed)) \<and>
   (\<exists>this0 st. PiggyList_new 1 = Inr this0 \<and>
      run [Append (5::nat), Append 6, Append 7] ([], this0) = Inr st \<and>
      num_containers (snd st) = 2 \<and> PiggyList_copy st = Inl AssertionFailed)"
proof -
  have a: "\<exists>this0. PiggyList_default = Inr this0 \<and>
      (\<forall>h :: 'a heap. PiggyList_copy (h, this0) = Inl AssertionFailed)"
    by (simp add: PiggyList_default_def PiggyList_new_def shl_size_t_def bnd_def
        PiggyList_copy_def)
  have "case PiggyList_new 1 of Inl e \<Rightarrow> False
     | Inr this0 \<Rightarrow>
         (case run [Append (5::nat), Append 6, Append 7] ([], this0) of Inl e \<Rightarrow> False
          | Inr st \<Rightarrow> num_containers (snd st) = 2 \<and>
              (case PiggyList_copy st of Inl e \<Rightarrow> e = AssertionFailed | Inr x \<Rightarrow> False))"
    by code_simp
  then have b: "\<exists>this0 st. PiggyList_new 1 = Inr this0 \<and>
      run [Append (5::nat), Append 6, Append 7] ([], this0) = Inr st \<and>
      num_containers (snd st) = 2 \<and> PiggyList_copy st = Inl AssertionFailed"
    by (simp add: case_Inr_iff Inl_case_iff del: run.simps)
  from a b show ?thesis by blast
qed

text \<open>
  Claim C7 (duplication fidelity) fails on the code. The copy constructor copies
  \<^verbatim>\<open>num_containers\<close>, \<^verbatim>\<open>container_size\<close> and \<^verbatim>\<open>m_size\<close> but leaves \<^verbatim>\<open>allocsize\<close> at
  \<^verbatim>\<open>BLOCKSIZE\<close>. With \<open>B = 2\<close> and two elements stored, the original would allocate 4
  elements next and the copy allocates 2; three further \<^verbatim>\<open>append\<close> calls complete on the
  original, and on the copy the third one writes at offset 2 of a block of length 2: the
  mutation of the copy is not confined to the storage the copy owns.
\<close>

theorem copy_then_append_overflows:
  "\<exists>this0 st h c st'. PiggyList_new 1 = Inr this0 \<and>
     run [Append (5::nat), Append 6] ([], this0) = Inr st \<and>
     PiggyList_copy st = Inr (h, c) \<and>
     m_size c = m_size (snd st) \<and> container_size c = container_size (snd st) \<and>
     num_containers c = num_containers (snd st) \<and>
     allocsize (snd st) = 4 \<and> allocsize c = 2 \<and>
     run [Append 7, Append 8, Append 9] (h, snd st) = Inr st' \<and>
     run [Append 7, Append 8, Append 9] (h, c) = Inl OutOfBounds"
proof -
  have "case PiggyList_new 1 of Inl e \<Rightarrow> False
     | Inr this0 \<Rightarrow>
         (case run [Append (5::nat), Append 6] ([], this0) of Inl e \<Rightarrow> False
          | Inr st \<Rightarrow>
              (case PiggyList_copy st of Inl e \<Rightarrow> False
               | Inr hc \<Rightarrow>
                   m_size (snd hc) = m_size (snd st) \<and>
                   container_size (snd hc) = container_size (snd st) \<and>
                   num_containers (snd hc) = num_containers (snd st) \<and>
                   allocsize (snd st) = 4 \<and> allocsize (snd hc) = 2 \<and>
                   (case run [Append 7, Append 8, Append 9] (fst hc, snd st) of Inl e \<Rightarrow> False
                    | Inr st' \<Rightarrow>
                        (case run [Append 7, Append 8, Append 9] hc of
                           Inl e \<Rightarrow> e = OutOfBounds | Inr x \<Rightarrow> False))))"
    by code_simp
  then show ?thesis
    by (simp add: case_Inr_iff Inl_case_iff del: run.simps)
qed

end
